theory Spec2Isabelle
  imports Main
begin

section \<open>The k8s worker pool of leaf-hub-spec-sync\<close>

text \<open>
  The development follows \<^verbatim>\<open>pkg/controller/k8s-worker-pool/k8s_worker_pool.go\<close>.
  Go errors are values of the type \<open>error\<close> below; \<open>Errorf m e\<close> is
  \<^verbatim>\<open>fmt.Errorf(m + " - %w", e)\<close>.
\<close>

datatype error = NumError | Failure string | Errorf string error

datatype log_entry =
    Info string
  | Error error string "(string \<times> string) list"

subsection \<open>Configuration: \<^verbatim>\<open>readEnvVars\<close>\<close>

text \<open>
  \<^verbatim>\<open>strconv.Atoi\<close> of the Go standard library, base 10 on a 64-bit \<^verbatim>\<open>int\<close>:
  an optional sign, then at least one decimal digit and nothing else, the value within
  \<open>-2^63 .. 2^63 - 1\<close>. Every other string is an error. \<^verbatim>\<open>readEnvVars\<close> only tests
  \<^verbatim>\<open>err != nil\<close>, so syntax and range errors are one value, \<open>NumError\<close>.
\<close>

definition isDigit :: "char \<Rightarrow> bool" where
  "isDigit c = (48 \<le> (of_char c :: nat) \<and> (of_char c :: nat) \<le> 57)"

fun digitsVal :: "string \<Rightarrow> nat \<Rightarrow> nat option" where
  "digitsVal [] n = Some n"
| "digitsVal (c # cs) n =
     (if isDigit c then digitsVal cs (n * 10 + (of_char c - 48)) else None)"

definition Atoi :: "string \<Rightarrow> error + int" where
  "Atoi s =
     (case s of
        [] \<Rightarrow> Inl NumError
      | c # cs \<Rightarrow>
          (let ds = (if c = CHR ''-'' \<or> c = CHR ''+'' then cs else s) in
           if ds = [] then Inl NumError
           else (case digitsVal ds 0 of
                   None \<Rightarrow> Inl NumError
                 | Some n \<Rightarrow>
                     if c = CHR ''-''
                     then (if 2 ^ 63 < n then Inl NumError else Inr (- int n))
                     else (if 2 ^ 63 \<le> n then Inl NumError else Inr (int n)))))"

definition envVarK8sClientsPoolSize :: string where
  "envVarK8sClientsPoolSize = ''K8S_CLIENTS_POOL_SIZE''"

definition defaultK8sClientsPoolSize :: int where
  "defaultK8sClientsPoolSize = 10"

text \<open>
  \<^verbatim>\<open>readEnvVars\<close>: the argument is the result of \<^verbatim>\<open>os.LookupEnv\<close> (\<open>None\<close> when the
  variable is not set); the result is the pool size and the lines written to the log.
\<close>

definition readEnvVars :: "string option \<Rightarrow> int \<times> log_entry list" where
  "readEnvVars env =
     (case env of
        None \<Rightarrow>
          (defaultK8sClientsPoolSize,
           [Info (''env variable '' @ envVarK8sClientsPoolSize
                  @ '' not found, using default value 10'')])
      | Some k8sClientsPoolSize \<Rightarrow>
          (case Atoi k8sClientsPoolSize of
             Inl err \<Rightarrow>
               (defaultK8sClientsPoolSize,
                [Info (''env var '' @ envVarK8sClientsPoolSize @ '' invalid value: ''
                       @ k8sClientsPoolSize @ '', using default value 10'')])
           | Inr v \<Rightarrow>
               if v < 1
               then (defaultK8sClientsPoolSize,
                     [Info (''env var '' @ envVarK8sClientsPoolSize @ '' invalid value: ''
                            @ k8sClientsPoolSize @ '', using default value 10'')])
               else (v, [])))"

text \<open>The decimal numeral of a natural number, to speak of "a numeric value".\<close>

fun decimal :: "nat \<Rightarrow> string" where
  "decimal n =
     (if n < 10 then [char_of (48 + n)]
      else decimal (n div 10) @ [char_of (48 + n mod 10)])"

declare decimal.simps [simp del]

subsection \<open>Jobs, channels and workers\<close>

text \<open>
  \<^verbatim>\<open>K8sJob\<close> (k8s_job.go): the payload \<^verbatim>\<open>obj\<close> is an \<^verbatim>\<open>interface{}\<close> and the handler a
  function value; both are opaque to the pool, so both are type parameters.
\<close>

record ('o, 'h) K8sJob =
  obj :: 'o
  handlerFunc :: 'h

definition NewK8sJob :: "'o \<Rightarrow> 'h \<Rightarrow> ('o, 'h) K8sJob" where
  "NewK8sJob ob f = \<lparr>obj = ob, handlerFunc = f\<rparr>"

text \<open>
  Opaque objects of other packages are handles: a \<^verbatim>\<open>*rest.Config\<close>, a \<^verbatim>\<open>client.Client\<close>,
  a \<^verbatim>\<open>context.Context\<close>. A Go channel is a reference; \<open>chanref\<close> is an index into the
  store of channels of the system state, and a nil channel is \<open>None\<close>.
\<close>

type_synonym config = nat
type_synonym client = nat
type_synonym "context" = nat
type_synonym chanref = nat

record ('o, 'h) chan =
  buf :: "('o, 'h) K8sJob list"
  cap :: int
  closed :: bool

datatype 'a outcome = Blocked | Panic string | Done 'a

text \<open>
  \<^verbatim>\<open>make(chan *K8sJob, n)\<close>, \<^verbatim>\<open>ch <- job\<close>, \<^verbatim>\<open>close(ch)\<close> and a receive, as the Go language
  defines them on a buffered channel: a send blocks while the buffer is full and panics
  on a closed channel. (The capacity is the pool size, which \<open>readEnvVars\<close> keeps
  at 1 or more; the rendezvous of an unbuffered channel is not modelled: with capacity
  0 a send stays blocked.)
\<close>

definition makeChan :: "int \<Rightarrow> ('o, 'h) chan outcome" where
  "makeChan n = (if n < 0 then Panic ''makechan: size out of range''
             else Done \<lparr>buf = [], cap = n, closed = False\<rparr>)"

definition send :: "('o, 'h) chan \<Rightarrow> ('o, 'h) K8sJob \<Rightarrow> ('o, 'h) chan outcome" where
  "send c j =
     (if closed c then Panic ''send on closed channel''
      else if int (length (buf c)) < cap c then Done (c\<lparr>buf := buf c @ [j]\<rparr>)
      else Blocked)"

definition close :: "('o, 'h) chan \<Rightarrow> ('o, 'h) chan outcome" where
  "close c = (if closed c then Panic ''close of closed channel''
              else Done (c\<lparr>closed := True\<rparr>))"

definition receive :: "('o, 'h) chan \<Rightarrow> ('o, 'h) chan outcome" where
  "receive c = (case buf c of [] \<Rightarrow> (if closed c then Done c else Blocked)
                | j # js \<Rightarrow> Done (c\<lparr>buf := js\<rparr>))"

datatype logger = PoolLog | WithName logger string

datatype session = FromKubeConfig config | WithClient client

record k8sWorker =
  wlog :: logger
  workerID :: int
  wclient :: session
  wqueue :: chanref

text \<open>
  Modelled from the spec: \<^verbatim>\<open>newK8sWorkerWithClient\<close>, \<^verbatim>\<open>newK8sWorker\<close> and
  \<^verbatim>\<open>worker.start\<close> live in k8s_worker.go, which is not among the sources. The spec's
  data model has a worker as \<open>{id, session, queue}\<close>, "bound to one queue and one
  backend session". A worker built by \<^verbatim>\<open>newK8sWorker\<close> holds a session made from the
  kube config it is given; the error \<^verbatim>\<open>newK8sWorker\<close> returns for worker \<open>i\<close>, if
  any, is a parameter (\<open>workerError\<close> below).
\<close>

definition newK8sWorkerWithClient ::
  "logger \<Rightarrow> int \<Rightarrow> session \<Rightarrow> chanref \<Rightarrow> k8sWorker" where
  "newK8sWorkerWithClient lg i k8sClient q =
     \<lparr>wlog = lg, workerID = i, wclient = k8sClient, wqueue = q\<rparr>"

text \<open>
  The collaborators of the pool that are not among the sources, as parameters:
  \<^verbatim>\<open>rbac.ImpersonationManager.GetUserIdentity\<close>, the constant \<^verbatim>\<open>rbac.NoUserIdentity\<close>,
  \<^verbatim>\<open>rbac.ImpersonationManager.Impersonate\<close> (its second argument is the number of
  calls made before this one, so that it may fail once and succeed later), and the
  error with which \<^verbatim>\<open>newK8sWorker\<close> fails for worker \<open>i\<close>, if it does.
\<close>

record 'o externals =
  GetUserIdentity :: "'o \<Rightarrow> error + string"
  NoUserIdentity :: string
  Impersonate :: "string \<Rightarrow> nat \<Rightarrow> error + client"
  workerError :: "int \<Rightarrow> error option"

text \<open>
  Modelled from the spec: \<^verbatim>\<open>newK8sWorker\<close> of k8s_worker.go, which is not among the
  sources: it fails with the error given for this worker, or builds the worker on a
  session made from the kube config.
\<close>

definition newK8sWorker ::
  "'o externals \<Rightarrow> logger \<Rightarrow> int \<Rightarrow> config \<Rightarrow> chanref \<Rightarrow> error + k8sWorker" where
  "newK8sWorker ext lg i kubeConfig q =
     (case workerError ext i of
        Some err \<Rightarrow> Inl err
      | None \<Rightarrow> Inr (newK8sWorkerWithClient lg i (FromKubeConfig kubeConfig) q))"

subsection \<open>The pool and the running system\<close>

text \<open>
  The struct \<^verbatim>\<open>K8sWorkerPool\<close>. \<open>ctx\<close> is nil (\<open>None\<close>) until \<^verbatim>\<open>Start\<close> assigns it;
  \<open>log\<close> is what has been written to the logger; the mutex records which call of
  \<^verbatim>\<open>RunAsync\<close> locked it (Go's mutex has no owner: \<^verbatim>\<open>Unlock\<close> below frees it
  whoever holds it).
\<close>

record K8sWorkerPool =
  ctx :: "context option"
  log :: "log_entry list"
  kubeConfig :: config
  jobsQueue :: chanref
  poolSize :: int
  impersonationWorkersQueues :: "string \<rightharpoonup> chanref"
  impersonationWorkersLock :: "nat option"

text \<open>
  Where a call of \<^verbatim>\<open>RunAsync\<close> stands, with its local variables \<^verbatim>\<open>userIdentity\<close>,
  \<^verbatim>\<open>k8sClient\<close>, \<^verbatim>\<open>err\<close> and \<^verbatim>\<open>workerQueue\<close>; the numbers are source lines.
\<close>

datatype pc =
    AtGetUserIdentity                \<comment> \<open>105\<close>
  | AtDefaultSend                    \<comment> \<open>112\<close>
  | AtLock string                    \<comment> \<open>116\<close>
  | AtLookup string                  \<comment> \<open>118\<close>
  | AtImpersonate string             \<comment> \<open>119, 132: in \<^verbatim>\<open>createUserWorker\<close>\<close>
  | AtCreateLane string client       \<comment> \<open>137 to 143: in \<^verbatim>\<open>createUserWorker\<close>\<close>
  | AtCreateFailed string error      \<comment> \<open>120, 121\<close>
  | AtReadQueue string               \<comment> \<open>125\<close>
  | AtUnlock "chanref option"        \<comment> \<open>127\<close>
  | AtLaneSend "chanref option"      \<comment> \<open>128\<close>
  | Returned

record ('o, 'h) call =
  cjob :: "('o, 'h) K8sJob"
  at :: pc

text \<open>Where the call of \<^verbatim>\<open>Start\<close> stands, with its locals \<^verbatim>\<open>ctx\<close> and \<^verbatim>\<open>i\<close>.\<close>

datatype start_pc =
    NotCalled
  | AtLoop "context" int             \<comment> \<open>84 to 91\<close>
  | AtSetCtx "context"               \<comment> \<open>93\<close>
  | AtWait "context"                 \<comment> \<open>95\<close>
  | AtClose "context"                \<comment> \<open>98\<close>
  | StartReturned "error option"     \<comment> \<open>87, 100\<close>

text \<open>
  The running system: the pool, the store of channels, the workers started so far (each
  with the context given to \<^verbatim>\<open>worker.start\<close>), the calls of \<^verbatim>\<open>RunAsync\<close> made so far,
  the call of \<^verbatim>\<open>Start\<close>, the contexts cancelled so far, the identities
  \<^verbatim>\<open>Impersonate\<close> has been called with, and the panic that ended the process, if any.
\<close>

record ('o, 'h) system = K8sWorkerPool +
  chans :: "('o, 'h) chan list"
  started :: "(k8sWorker \<times> context option) list"
  calls :: "('o, 'h) call list"
  startCall :: start_pc
  cancelled :: "context list"
  impersonations :: "string list"
  crashed :: "string option"

text \<open>
  \<^verbatim>\<open>AddK8sWorkerPool\<close>: the arguments are the result of \<^verbatim>\<open>rest.InClusterConfig()\<close>,
  the environment variable and the error of \<^verbatim>\<open>mgr.Add\<close>, if any. The default queue is
  the first channel of the store.
\<close>

definition AddK8sWorkerPool ::
  "error + config \<Rightarrow> string option \<Rightarrow> error option \<Rightarrow> error + ('o, 'h) system" where
  "AddK8sWorkerPool inCluster env addErr =
     (case inCluster of
        Inl err \<Rightarrow> Inl (Errorf ''failed to get in cluster kubeconfig'' err)
      | Inr cfg \<Rightarrow>
          (let k8sWorkerPoolSize = fst (readEnvVars env) in
           case addErr of
             Some err \<Rightarrow> Inl (Errorf ''failed to initialize k8s workers pool'' err)
           | None \<Rightarrow>
               Inr \<lparr>ctx = None, log = snd (readEnvVars env), kubeConfig = cfg,
                    jobsQueue = 0, poolSize = k8sWorkerPoolSize,
                    impersonationWorkersQueues = Map.empty,
                    impersonationWorkersLock = None,
                    chans = [\<lparr>buf = [], cap = k8sWorkerPoolSize, closed = False\<rparr>],
                    started = [], calls = [], startCall = NotCalled, cancelled = [],
                    impersonations = [], crashed = None\<rparr>))"

definition goto :: "nat \<Rightarrow> pc \<Rightarrow> ('o, 'h) system \<Rightarrow> ('o, 'h) system" where
  "goto t p s = s\<lparr>calls := (calls s)[t := (calls s ! t)\<lparr>at := p\<rparr>]\<rparr>"

definition panic :: "string \<Rightarrow> ('o, 'h) system \<Rightarrow> ('o, 'h) system" where
  "panic m s = s\<lparr>crashed := Some m\<rparr>"

text \<open>
  \<^verbatim>\<open>q <- job\<close> by call \<open>t\<close>, which returns afterwards (lines 112, 113 and 128): \<open>None\<close>
  while the send is blocked. A send on a nil channel blocks forever.
\<close>

definition sendAndReturn ::
  "nat \<Rightarrow> chanref option \<Rightarrow> ('o, 'h) K8sJob \<Rightarrow> ('o, 'h) system \<Rightarrow> ('o, 'h) system option" where
  "sendAndReturn t q job s =
     (case q of
        None \<Rightarrow> None
      | Some c \<Rightarrow>
          (case send (chans s ! c) job of
             Blocked \<Rightarrow> None
           | Panic m \<Rightarrow> Some (panic m s)
           | Done ch \<Rightarrow> Some (goto t Returned (s\<lparr>chans := (chans s)[c := ch]\<rparr>))))"

text \<open>The logger of a lane's worker: \<^verbatim>\<open>pool.log.WithName(fmt.Sprintf("impersonation-%s", userIdentity))\<close>.\<close>

definition laneLog :: "string \<Rightarrow> logger" where
  "laneLog userIdentity = WithName PoolLog (''impersonation-'' @ userIdentity)"

text \<open>
  One statement of \<^verbatim>\<open>createUserWorker\<close>, run by call \<open>t\<close>: the call of
  \<^verbatim>\<open>Impersonate\<close> (line 132), whose failure is returned to \<^verbatim>\<open>RunAsync\<close>, or the rest
  (lines 137 to 143): the lane's queue, its worker, started with \<^verbatim>\<open>pool.ctx\<close>, and the
  entry of the map.
\<close>

definition createUserWorker ::
  "'o externals \<Rightarrow> nat \<Rightarrow> ('o, 'h) system \<Rightarrow> ('o, 'h) system option" where
  "createUserWorker ext t s =
     (case at (calls s ! t) of
        AtImpersonate userIdentity \<Rightarrow>
          (let s' = s\<lparr>impersonations := impersonations s @ [userIdentity]\<rparr> in
           case Impersonate ext userIdentity (length (impersonations s)) of
             Inl err \<Rightarrow>
               Some (goto t (AtCreateFailed userIdentity (Errorf ''failed to impersonate'' err)) s')
           | Inr k8sClient \<Rightarrow> Some (goto t (AtCreateLane userIdentity k8sClient) s'))
      | AtCreateLane userIdentity k8sClient \<Rightarrow>
          (case makeChan (poolSize s) of
             Done ch \<Rightarrow>
               (let workerQueue = length (chans s);
                    worker = newK8sWorkerWithClient (laneLog userIdentity)
                               1 (WithClient k8sClient) workerQueue
                in Some (goto t (AtReadQueue userIdentity)
                     (s\<lparr>chans := chans s @ [ch],
                        started := started s @ [(worker, ctx s)],
                        impersonationWorkersQueues :=
                          (impersonationWorkersQueues s)(userIdentity \<mapsto> workerQueue)\<rparr>)))
           | Panic m \<Rightarrow> Some (panic m s)
           | Blocked \<Rightarrow> None)
      | _ \<Rightarrow> None)"

text \<open>
  One statement of \<^verbatim>\<open>RunAsync\<close>, run by call \<open>t\<close>; \<open>None\<close> when the call is blocked
  (on the mutex or on a full queue) or has returned.
\<close>

definition RunAsync ::
  "'o externals \<Rightarrow> nat \<Rightarrow> ('o, 'h) system \<Rightarrow> ('o, 'h) system option" where
  "RunAsync ext t s =
     (let job = cjob (calls s ! t) in
      case at (calls s ! t) of
        AtGetUserIdentity \<Rightarrow>
          (case GetUserIdentity ext (obj job) of
             Inl err \<Rightarrow>
               Some (goto t Returned
                 (s\<lparr>log := log s @ [Error err ''failed to get user identity from obj'' []]\<rparr>))
           | Inr userIdentity \<Rightarrow>
               if userIdentity = NoUserIdentity ext then Some (goto t AtDefaultSend s)
               else Some (goto t (AtLock userIdentity) s))
      | AtDefaultSend \<Rightarrow> sendAndReturn t (Some (jobsQueue s)) job s
      | AtLock userIdentity \<Rightarrow>
          (case impersonationWorkersLock s of
             None \<Rightarrow> Some (goto t (AtLookup userIdentity) (s\<lparr>impersonationWorkersLock := Some t\<rparr>))
           | Some holder \<Rightarrow> None)
      | AtLookup userIdentity \<Rightarrow>
          (case impersonationWorkersQueues s userIdentity of
             None \<Rightarrow> Some (goto t (AtImpersonate userIdentity) s)
           | Some q \<Rightarrow> Some (goto t (AtReadQueue userIdentity) s))
      | AtImpersonate userIdentity \<Rightarrow> createUserWorker ext t s
      | AtCreateLane userIdentity k8sClient \<Rightarrow> createUserWorker ext t s
      | AtCreateFailed userIdentity err \<Rightarrow>
          Some (goto t Returned
            (s\<lparr>log := log s @ [Error err ''failed to create user worker''
                                  [(''user'', userIdentity)]]\<rparr>))
      | AtReadQueue userIdentity \<Rightarrow>
          Some (goto t (AtUnlock (impersonationWorkersQueues s userIdentity)) s)
      | AtUnlock workerQueue \<Rightarrow>
          (case impersonationWorkersLock s of
             None \<Rightarrow> Some (panic ''sync: unlock of unlocked mutex'' s)
           | Some holder \<Rightarrow>
               Some (goto t (AtLaneSend workerQueue) (s\<lparr>impersonationWorkersLock := None\<rparr>)))
      | AtLaneSend workerQueue \<Rightarrow> sendAndReturn t workerQueue job s
      | Returned \<Rightarrow> None)"

text \<open>
  One statement of \<^verbatim>\<open>Start\<close>; \<open>None\<close> while it waits for the context, before it is
  called and after it has returned.
\<close>

definition Start :: "'o externals \<Rightarrow> ('o, 'h) system \<Rightarrow> ('o, 'h) system option" where
  "Start ext s =
     (case startCall s of
        NotCalled \<Rightarrow> None
      | AtLoop c i \<Rightarrow>
          if i \<le> poolSize s
          then (case newK8sWorker ext PoolLog i (kubeConfig s) (jobsQueue s) of
                  Inl err \<Rightarrow>
                    Some (s\<lparr>startCall :=
                      StartReturned (Some (Errorf ''failed to start k8s workers pool'' err))\<rparr>)
                | Inr worker \<Rightarrow>
                    Some (s\<lparr>started := started s @ [(worker, Some c)],
                            startCall := AtLoop c (i + 1)\<rparr>))
          else Some (s\<lparr>startCall := AtSetCtx c\<rparr>)
      | AtSetCtx c \<Rightarrow> Some (s\<lparr>ctx := Some c, startCall := AtWait c\<rparr>)
      | AtWait c \<Rightarrow> if c \<in> set (cancelled s) then Some (s\<lparr>startCall := AtClose c\<rparr>) else None
      | AtClose c \<Rightarrow>
          (case close (chans s ! jobsQueue s) of
             Done ch \<Rightarrow>
               Some (s\<lparr>chans := (chans s)[jobsQueue s := ch],
                       startCall := StartReturned None\<rparr>)
           | Panic m \<Rightarrow> Some (panic m s)
           | Blocked \<Rightarrow> None)
      | StartReturned r \<Rightarrow> None)"

text \<open>
  What can happen next: a producer calls \<^verbatim>\<open>RunAsync(job)\<close>; a call of \<^verbatim>\<open>RunAsync\<close> runs
  its next statement; the manager calls \<^verbatim>\<open>Start(ctx)\<close>; \<^verbatim>\<open>Start\<close> runs its next
  statement; a context is cancelled; a started worker takes the next job from its queue.
  After a panic the process is gone and nothing happens any more.
\<close>

text \<open>
  Modelled from the spec: the event \<open>Take\<close> is the loop of a worker
  (\<^verbatim>\<open>worker.start\<close> in k8s_worker.go, which is not among the sources), of which the
  spec says that it takes the next job from the queue the worker is bound to.
\<close>

datatype ('o, 'h) event =
    Submit "('o, 'h) K8sJob"
  | Run nat
  | CallStart "context"
  | RunStart
  | Cancel "context"
  | Take chanref

definition step ::
  "'o externals \<Rightarrow> ('o, 'h) event \<Rightarrow> ('o, 'h) system \<Rightarrow> ('o, 'h) system option" where
  "step ext ev s =
     (if crashed s \<noteq> None then None
      else case ev of
        Submit job \<Rightarrow> Some (s\<lparr>calls := calls s @ [\<lparr>cjob = job, at = AtGetUserIdentity\<rparr>]\<rparr>)
      | Run t \<Rightarrow> if t < length (calls s) then RunAsync ext t s else None
      | CallStart c \<Rightarrow>
          if startCall s = NotCalled then Some (s\<lparr>startCall := AtLoop c 1\<rparr>) else None
      | RunStart \<Rightarrow> Start ext s
      | Cancel c \<Rightarrow> Some (s\<lparr>cancelled := c # cancelled s\<rparr>)
      | Take q \<Rightarrow>
          if q < length (chans s) \<and> q \<in> wqueue ` fst ` set (started s)
          then (case receive (chans s ! q) of
                  Done ch \<Rightarrow> Some (s\<lparr>chans := (chans s)[q := ch]\<rparr>)
                | Panic m \<Rightarrow> Some (panic m s)
                | Blocked \<Rightarrow> None)
          else None)"

text \<open>A run of the system: the events in order; one that cannot happen is skipped.\<close>

fun exec :: "'o externals \<Rightarrow> ('o, 'h) event list \<Rightarrow> ('o, 'h) system \<Rightarrow> ('o, 'h) system" where
  "exec ext [] s = s"
| "exec ext (ev # evs) s =
     exec ext evs (case step ext ev s of None \<Rightarrow> s | Some s' \<Rightarrow> s')"

subsection \<open>Invariants of a run\<close>

text \<open>
  The statements of \<^verbatim>\<open>RunAsync\<close> between \<^verbatim>\<open>Lock\<close> and \<^verbatim>\<open>Unlock\<close>, and the identity a
  call is creating a lane for while it is inside \<^verbatim>\<open>createUserWorker\<close>.
\<close>

fun holdsLock :: "pc \<Rightarrow> bool" where
  "holdsLock (AtLookup u) = True"
| "holdsLock (AtImpersonate u) = True"
| "holdsLock (AtCreateLane u k) = True"
| "holdsLock (AtCreateFailed u e) = True"
| "holdsLock (AtReadQueue u) = True"
| "holdsLock (AtUnlock q) = True"
| "holdsLock p = False"

fun creating :: "pc \<Rightarrow> string option" where
  "creating (AtImpersonate u) = Some u"
| "creating (AtCreateLane u k) = Some u"
| "creating (AtCreateFailed u e) = Some u"
| "creating p = None"

text \<open>
  Mutual exclusion: a call that is not the holder of the mutex is outside the locked
  region, and the holder is a call that is inside it or has returned.
\<close>

definition mutex :: "('o, 'h) system \<Rightarrow> bool" where
  "mutex s =
     ((\<forall>t < length (calls s).
          impersonationWorkersLock s \<noteq> Some t \<longrightarrow> \<not> holdsLock (at (calls s ! t)))
      \<and> (\<forall>t. impersonationWorkersLock s = Some t \<longrightarrow>
             t < length (calls s)
             \<and> (holdsLock (at (calls s ! t)) \<or> at (calls s ! t) = Returned)))"

text \<open>A call inside \<^verbatim>\<open>createUserWorker\<close> works on an identity that has no lane.\<close>

definition fresh :: "('o, 'h) system \<Rightarrow> bool" where
  "fresh s =
     (\<forall>t < length (calls s). \<forall>u. creating (at (calls s ! t)) = Some u \<longrightarrow>
        impersonationWorkersQueues s u = None)"

text \<open>
  The lanes created so far for an identity: the workers started under the logger
  \<open>laneLog\<close> of the identity, one for each run of lines 137 to 143.
\<close>

definition laneWorkers ::
  "string \<Rightarrow> ('o, 'h) system \<Rightarrow> (k8sWorker \<times> context option) list" where
  "laneWorkers u s =
     filter (\<lambda>wc. wlog (fst wc) = laneLog u) (started s)"

definition lanes :: "('o, 'h) system \<Rightarrow> bool" where
  "lanes s =
     (\<forall>u. case impersonationWorkersQueues s u of
             None \<Rightarrow> laneWorkers u s = []
           | Some q \<Rightarrow>
               q < length (chans s) \<and> q \<noteq> jobsQueue s
               \<and> (\<exists>k c. laneWorkers u s =
                     [(newK8sWorkerWithClient (laneLog u) 1 (WithClient k) q, c)]))"

text \<open>The workers bound to the default queue, and the ones \<^verbatim>\<open>Start\<close> is to spawn.\<close>

definition defaultWorkers :: "('o, 'h) system \<Rightarrow> (k8sWorker \<times> context option) list" where
  "defaultWorkers s = filter (\<lambda>wc. wqueue (fst wc) = jobsQueue s) (started s)"

definition spawned :: "context \<Rightarrow> int \<Rightarrow> ('o, 'h) system \<Rightarrow> (k8sWorker \<times> context option) list" where
  "spawned c n s =
     map (\<lambda>i. (newK8sWorkerWithClient PoolLog i (FromKubeConfig (kubeConfig s)) (jobsQueue s),
               Some c)) [1..n]"

text \<open>Line 93 has not run: \<^verbatim>\<open>Start\<close> is not called yet, is in its loop, or has failed.\<close>

fun ctxUnassigned :: "start_pc \<Rightarrow> bool" where
  "ctxUnassigned NotCalled = True"
| "ctxUnassigned (AtLoop c i) = True"
| "ctxUnassigned (AtSetCtx c) = True"
| "ctxUnassigned (StartReturned (Some e)) = True"
| "ctxUnassigned p = False"

definition nilCtx :: "('o, 'h) system \<Rightarrow> bool" where
  "nilCtx s =
     (ctxUnassigned (startCall s) \<longrightarrow>
        ctx s = None \<and> (\<forall>wc \<in> set (started s). wlog (fst wc) \<noteq> PoolLog \<longrightarrow> snd wc = None))"

text \<open>What holds at each point of \<^verbatim>\<open>Start\<close>.\<close>

definition startInv :: "'o externals \<Rightarrow> ('o, 'h) system \<Rightarrow> bool" where
  "startInv ext s =
     (jobsQueue s < length (chans s) \<and>
      (case startCall s of
         NotCalled \<Rightarrow>
           defaultWorkers s = [] \<and> ctx s = None \<and> \<not> closed (chans s ! jobsQueue s)
       | AtLoop c i \<Rightarrow>
           1 \<le> i \<and> (\<forall>j \<in> {1..<i}. j \<le> poolSize s \<and> workerError ext j = None)
           \<and> defaultWorkers s = spawned c (i - 1) s
           \<and> ctx s = None \<and> \<not> closed (chans s ! jobsQueue s)
       | AtSetCtx c \<Rightarrow>
           (\<forall>j \<in> {1..poolSize s}. workerError ext j = None)
           \<and> defaultWorkers s = spawned c (poolSize s) s
           \<and> ctx s = None \<and> \<not> closed (chans s ! jobsQueue s)
       | AtWait c \<Rightarrow>
           defaultWorkers s = spawned c (poolSize s) s
           \<and> ctx s = Some c \<and> \<not> closed (chans s ! jobsQueue s)
       | AtClose c \<Rightarrow>
           defaultWorkers s = spawned c (poolSize s) s
           \<and> ctx s = Some c \<and> c \<in> set (cancelled s) \<and> \<not> closed (chans s ! jobsQueue s)
       | StartReturned None \<Rightarrow>
           (\<exists>c. defaultWorkers s = spawned c (poolSize s) s
                \<and> ctx s = Some c \<and> c \<in> set (cancelled s))
           \<and> closed (chans s ! jobsQueue s)
       | StartReturned (Some e) \<Rightarrow>
           (\<exists>c i err. 1 \<le> i \<and> i \<le> poolSize s
                \<and> (\<forall>j \<in> {1..<i}. workerError ext j = None)
                \<and> workerError ext i = Some err
                \<and> e = Errorf ''failed to start k8s workers pool''
                        err
                \<and> defaultWorkers s = spawned c (i - 1) s)
           \<and> ctx s = None \<and> \<not> closed (chans s ! jobsQueue s)))"

text \<open>The invariant of every run that begins with \<open>AddK8sWorkerPool\<close>.\<close>

definition inv :: "'o externals \<Rightarrow> ('o, 'h) system \<Rightarrow> bool" where
  "inv ext s = (mutex s \<and> fresh s \<and> lanes s \<and> nilCtx s \<and> startInv ext s)"

text \<open>
  The queue a call reads at line 125, and holds in \<^verbatim>\<open>workerQueue\<close> from then on, is a
  lane's queue of the map: never nil, never a queue the map does not know.
\<close>

fun queueKnown :: "(string \<rightharpoonup> chanref) \<Rightarrow> pc \<Rightarrow> bool" where
  "queueKnown m (AtReadQueue u) = (m u \<noteq> None)"
| "queueKnown m (AtUnlock q) = (\<exists>u c. q = Some c \<and> m u = Some c)"
| "queueKnown m (AtLaneSend q) = (\<exists>u c. q = Some c \<and> m u = Some c)"
| "queueKnown m p = True"

definition resolved :: "('o, 'h) system \<Rightarrow> bool" where
  "resolved s =
     (\<forall>t < length (calls s). queueKnown (impersonationWorkersQueues s) (at (calls s ! t)))"

subsection \<open>A concrete pool\<close>

text \<open>
  Concrete collaborators and a concrete pool, for the closed instances of the theorems:
  the payload is a string, which is the identity it carries (the empty string for none,
  and \<open>''malformed''\<close> cannot be read); \<^verbatim>\<open>Impersonate\<close> rejects \<open>''carol''\<close>; the
  pool is the one \<open>AddK8sWorkerPool\<close> builds when \<^verbatim>\<open>K8S_CLIENTS_POOL_SIZE\<close> is \<^verbatim>\<open>"2"\<close>.
  In \<open>brokenExt\<close> the second default worker cannot be built.
\<close>

definition demoExt :: "string externals" where
  "demoExt =
     \<lparr>GetUserIdentity =
        (\<lambda>ob. if ob = ''malformed'' then Inl (Failure ''malformed payload'') else Inr ob),
      NoUserIdentity = [],
      Impersonate = (\<lambda>u n. if u = ''carol'' then Inl (Failure ''forbidden'') else Inr (length u)),
      workerError = (\<lambda>i. None)\<rparr>"

definition brokenExt :: "string externals" where
  "brokenExt = demoExt\<lparr>workerError := (\<lambda>i. if i = 2 then Some (Failure ''no route'') else None)\<rparr>"

definition demoPool :: "(string, nat) system" where
  "demoPool =
     \<lparr>ctx = None, log = [], kubeConfig = 7, jobsQueue = 0, poolSize = 2,
      impersonationWorkersQueues = Map.empty, impersonationWorkersLock = None,
      chans = [\<lparr>buf = [], cap = 2, closed = False\<rparr>],
      started = [], calls = [], startCall = NotCalled, cancelled = [],
      impersonations = [], crashed = None\<rparr>"

definition job :: "string \<Rightarrow> (string, nat) K8sJob" where
  "job ob = NewK8sJob ob 0"

text \<open>
  Runs of the concrete pool. In \<open>aliceRace\<close> two producers submit a first job for
  \<open>''alice''\<close> at the same time: call 0 takes the mutex, call 1 waits for it. In
  \<open>aliceBlocked\<close> three jobs for \<open>''alice''\<close> fill her lane's queue, and the third
  call waits at line 128. In \<open>laneBeforeStart\<close> a lane is created before \<^verbatim>\<open>Start\<close> is
  called. In \<open>startFails\<close> the manager calls \<^verbatim>\<open>Start\<close>, whose second worker cannot
  be built. In \<open>carolDropped\<close> a job for \<open>''carol''\<close> runs until it returns.
\<close>

definition aliceRace :: "(string, nat) event list" where
  "aliceRace =
     [Submit (job ''alice''), Submit (job ''alice''),
      Run 0, Run 1, Run 0, Run 1, Run 0, Run 0, Run 0, Run 0, Run 0,
      Run 1, Run 1, Run 1, Run 1, Run 0, Run 1]"

definition aliceBlocked :: "(string, nat) event list" where
  "aliceBlocked =
     [Submit (job ''alice''), Submit (job ''alice''), Submit (job ''alice''),
      Run 0, Run 0, Run 0, Run 0, Run 0, Run 0, Run 0, Run 0,
      Run 1, Run 1, Run 1, Run 1, Run 1, Run 1,
      Run 2, Run 2, Run 2, Run 2, Run 2, Run 2]"

definition laneBeforeStart :: "(string, nat) event list" where
  "laneBeforeStart = [Submit (job ''alice''), Run 0, Run 0, Run 0, Run 0, Run 0]"

definition startFails :: "(string, nat) event list" where
  "startFails = [CallStart 3, RunStart, RunStart]"

definition carolDropped :: "(string, nat) event list" where
  "carolDropped = [Submit (job ''carol''), Run 0, Run 0, Run 0, Run 0, Run 0]"

text \<open>
  In \<open>lanesThenCarol\<close> a job for \<open>''alice''\<close> and one for \<open>''bob''\<close> create their
  lanes, a second job for \<open>''alice''\<close> uses hers, her worker takes a job from her
  queue, a job for \<open>''carol''\<close> is rejected, and a third job for \<open>''alice''\<close> is
  submitted. In \<open>afterShutdown\<close> the pool is
  started and its context cancelled, \<^verbatim>\<open>Start\<close> returns, and a job without identity is
  submitted.
\<close>

definition lanesThenCarol :: "(string, nat) event list" where
  "lanesThenCarol =
     [Submit (job ''alice''), Run 0, Run 0, Run 0, Run 0, Run 0, Run 0, Run 0, Run 0,
      Submit (job ''bob''), Run 1, Run 1, Run 1, Run 1, Run 1, Run 1, Run 1, Run 1,
      Submit (job ''alice''), Run 2, Run 2, Run 2, Run 2, Run 2, Run 2,
      Take 1,
      Submit (job ''carol''), Run 3, Run 3, Run 3, Run 3, Run 3,
      Submit (job ''alice''), Run 4, Run 4, Run 4]"

definition afterShutdown :: "(string, nat) event list" where
  "afterShutdown =
     [CallStart 3, RunStart, RunStart, RunStart, RunStart, Cancel 3, RunStart, RunStart,
      Submit (job []), Run 0, Run 0]"

section \<open>Properties\<close>

subsection \<open>The pool size\<close>

lemma digitsVal_append:
  "digitsVal (xs @ ys) n = (case digitsVal xs n of None \<Rightarrow> None | Some m \<Rightarrow> digitsVal ys m)"
  by (induction xs arbitrary: n) auto

lemma digitsVal_decimal: "digitsVal (decimal n) 0 = Some n"
proof (induction n rule: decimal.induct)
  case (1 n)
  show ?case
  proof (cases "n < 10")
    case True
    then show ?thesis by (subst decimal.simps) (simp add: isDigit_def)
  next
    case False
    have d: "n mod 10 < 10" by simp
    from False 1 have ih: "digitsVal (decimal (n div 10)) 0 = Some (n div 10)" by simp
    show ?thesis using False ih d
      by (subst decimal.simps) (simp add: digitsVal_append isDigit_def)
  qed
qed

lemma decimal_head: "\<exists>c cs. decimal n = c # cs \<and> isDigit c"
proof (induction n rule: decimal.induct)
  case (1 n)
  show ?case
  proof (cases "n < 10")
    case True
    then show ?thesis by (subst decimal.simps) (simp add: isDigit_def)
  next
    case False
    with 1 obtain c cs where "decimal (n div 10) = c # cs" "isDigit c" by auto
    with False show ?thesis by (subst decimal.simps) simp
  qed
qed

lemma Atoi_decimal: "n < 2 ^ 63 \<Longrightarrow> Atoi (decimal n) = Inr (int n)"
proof -
  assume n: "n < 2 ^ 63"
  obtain c cs where d: "decimal n = c # cs" and c: "isDigit c"
    using decimal_head by blast
  from c have ne: "c \<noteq> CHR ''-''" "c \<noteq> CHR ''+''" by (auto simp: isDigit_def)
  have dv: "digitsVal (c # cs) 0 = Some n" using digitsVal_decimal [of n] d by simp
  show ?thesis using n ne dv d by (simp add: Atoi_def del: digitsVal.simps)
qed

text \<open>
  Claim C5. \<open>readEnvVars\<close> returns 10 when the variable \<^verbatim>\<open>K8S_CLIENTS_POOL_SIZE\<close> is
  not set; it returns 10, and writes a line to the log, when the value is not a number
  (\<^verbatim>\<open>strconv.Atoi\<close> fails) or is below 1, as for \<^verbatim>\<open>"0"\<close>, \<^verbatim>\<open>"-3"\<close> and \<^verbatim>\<open>"five"\<close>; it returns
  the parsed value when that is 1 or more, as for \<^verbatim>\<open>"5"\<close>, and so for the decimal numeral
  of every \<open>n\<close> from 1 up to the largest \<^verbatim>\<open>int\<close>.
\<close>

theorem readEnvVars_pool_size:
  "readEnvVars None =
      (10, [Info ''env variable K8S_CLIENTS_POOL_SIZE not found, using default value 10''])
   \<and> (Atoi s = Inl e \<or> (Atoi s = Inr v \<and> v < 1) \<longrightarrow>
        readEnvVars (Some s) =
          (10, [Info (''env var K8S_CLIENTS_POOL_SIZE invalid value: '' @ s
                      @ '', using default value 10'')]))
   \<and> (Atoi s = Inr v \<and> 1 \<le> v \<longrightarrow> readEnvVars (Some s) = (v, []))
   \<and> (1 \<le> n \<and> n < 2 ^ 63 \<longrightarrow> readEnvVars (Some (decimal n)) = (int n, []))
   \<and> fst (readEnvVars (Some ''0'')) = 10
   \<and> fst (readEnvVars (Some ''-3'')) = 10
   \<and> fst (readEnvVars (Some ''five'')) = 10
   \<and> fst (readEnvVars (Some ''5'')) = 5"
proof -
  have a: "1 \<le> n \<and> n < 2 ^ 63 \<longrightarrow> readEnvVars (Some (decimal n)) = (int n, [])"
    by (simp add: readEnvVars_def Atoi_decimal)
  have b: "fst (readEnvVars (Some ''0'')) = 10" "fst (readEnvVars (Some ''-3'')) = 10"
    "fst (readEnvVars (Some ''five'')) = 10" "fst (readEnvVars (Some ''5'')) = 5"
    by (simp_all add: readEnvVars_def Atoi_def isDigit_def defaultK8sClientsPoolSize_def)
  have c: "readEnvVars None =
      (10, [Info ''env variable K8S_CLIENTS_POOL_SIZE not found, using default value 10''])"
    by (simp add: readEnvVars_def defaultK8sClientsPoolSize_def envVarK8sClientsPoolSize_def)
  have d: "Atoi s = Inl e \<or> (Atoi s = Inr v \<and> v < 1) \<longrightarrow>
        readEnvVars (Some s) =
          (10, [Info (''env var K8S_CLIENTS_POOL_SIZE invalid value: '' @ s
                      @ '', using default value 10'')])"
    by (auto simp: readEnvVars_def defaultK8sClientsPoolSize_def envVarK8sClientsPoolSize_def)
  have e: "Atoi s = Inr v \<and> 1 \<le> v \<longrightarrow> readEnvVars (Some s) = (v, [])"
    by (auto simp: readEnvVars_def)
  from a b c d e show ?thesis by blast
qed

theorem readEnvVars_pool_size_witness:
  "Atoi ''-3'' = Inr (- 3) \<and> Atoi ''7'' = Inr 7 \<and> decimal 12 = ''12''
   \<and> readEnvVars (Some ''-3'') =
        (10, [Info ''env var K8S_CLIENTS_POOL_SIZE invalid value: -3, using default value 10''])
   \<and> readEnvVars (Some ''7'') = (7, [])
   \<and> readEnvVars (Some ''12'') = (12, [])"
proof -
  have h1: "Atoi ''-3'' = Inr (- 3)" by (simp add: Atoi_def isDigit_def)
  have h2: "Atoi ''7'' = Inr 7" by (simp add: Atoi_def isDigit_def)
  have h3: "decimal 12 = ''12''" by code_simp
  have h4: "(1::nat) \<le> 12 \<and> (12::nat) < 2 ^ 63" by simp
  from readEnvVars_pool_size [of "''-3''" undefined "- 3" 0] h1
  have r1: "readEnvVars (Some ''-3'') =
        (10, [Info ''env var K8S_CLIENTS_POOL_SIZE invalid value: -3, using default value 10''])"
    by simp
  from readEnvVars_pool_size [of "''7''" undefined 7 0] h2
  have r2: "readEnvVars (Some ''7'') = (7, [])" by simp
  from readEnvVars_pool_size [of "''7''" undefined 7 12] h3 h4
  have r3: "readEnvVars (Some ''12'') = (12, [])" by simp
  from h1 h2 h3 r1 r2 r3 show ?thesis by blast
qed

subsection \<open>The invariants hold in every run\<close>

lemma goto_fields [simp]:
  "ctx (goto t p s) = ctx s" "log (goto t p s) = log s" "kubeConfig (goto t p s) = kubeConfig s"
  "jobsQueue (goto t p s) = jobsQueue s" "poolSize (goto t p s) = poolSize s"
  "impersonationWorkersQueues (goto t p s) = impersonationWorkersQueues s"
  "impersonationWorkersLock (goto t p s) = impersonationWorkersLock s"
  "chans (goto t p s) = chans s" "started (goto t p s) = started s"
  "startCall (goto t p s) = startCall s" "cancelled (goto t p s) = cancelled s"
  "impersonations (goto t p s) = impersonations s" "crashed (goto t p s) = crashed s"
  "length (calls (goto t p s)) = length (calls s)"
  by (simp_all add: goto_def)

lemma at_goto [simp]:
  "t < length (calls s) \<Longrightarrow> at (calls (goto t p s) ! t') = (if t' = t then p else at (calls s ! t'))"
  by (simp add: goto_def nth_list_update)

lemma cjob_goto [simp]:
  "cjob (calls (goto t p s) ! t') = cjob (calls s ! t')"
  by (cases "t < length (calls s)") (simp_all add: goto_def nth_list_update list_update_beyond)

lemma panic_fields [simp]:
  "ctx (panic m s) = ctx s" "log (panic m s) = log s" "kubeConfig (panic m s) = kubeConfig s"
  "jobsQueue (panic m s) = jobsQueue s" "poolSize (panic m s) = poolSize s"
  "impersonationWorkersQueues (panic m s) = impersonationWorkersQueues s"
  "impersonationWorkersLock (panic m s) = impersonationWorkersLock s"
  "chans (panic m s) = chans s" "started (panic m s) = started s"
  "startCall (panic m s) = startCall s" "cancelled (panic m s) = cancelled s"
  "impersonations (panic m s) = impersonations s" "crashed (panic m s) = Some m"
  "calls (panic m s) = calls s"
  by (simp_all add: panic_def)




lemma mutex_holder:
  "mutex s \<Longrightarrow> t < length (calls s) \<Longrightarrow> holdsLock (at (calls s ! t)) \<Longrightarrow>
   impersonationWorkersLock s = Some t"
  unfolding mutex_def by blast

lemma mutex_RunAsync:
  assumes "mutex s" "t < length (calls s)" "RunAsync ext t s = Some s'"
  shows "mutex s'"
proof (cases "at (calls s ! t)")
  case (AtUnlock q)
  with assms have "impersonationWorkersLock s = Some t"
    by (simp add: mutex_holder)
  with assms AtUnlock show ?thesis
    by (auto simp: mutex_def RunAsync_def split: if_splits)
qed (use assms in \<open>auto simp: mutex_def RunAsync_def createUserWorker_def sendAndReturn_def Let_def
           split: sum.splits option.splits outcome.splits if_splits\<close>)

lemma mutex_Start:
  assumes "mutex s" "Start ext s = Some s'"
  shows "mutex s'"
  using assms
  by (cases "startCall s")
     (auto simp: mutex_def Start_def split: sum.splits option.splits outcome.splits if_splits)

lemma mutex_step:
  assumes "mutex s" "step ext ev s = Some s'"
  shows "mutex s'"
proof (cases ev)
  case (Submit job)
  with assms show ?thesis
    by (auto simp: mutex_def step_def nth_append split: if_splits)
next
  case (Run t)
  with assms show ?thesis
    by (auto simp: step_def split: if_splits intro: mutex_RunAsync)
next
  case RunStart
  with assms show ?thesis
    by (auto simp: step_def split: if_splits intro: mutex_Start)
next
  case (Take q)
  with assms show ?thesis
    by (auto simp: mutex_def step_def split: if_splits outcome.splits)
qed (use assms in \<open>auto simp: mutex_def step_def split: if_splits\<close>)


lemma creating_holdsLock: "creating p = Some u \<Longrightarrow> holdsLock p"
  by (cases p) auto

lemma mutex_unique:
  "mutex s \<Longrightarrow> t < length (calls s) \<Longrightarrow> t' < length (calls s) \<Longrightarrow>
   holdsLock (at (calls s ! t)) \<Longrightarrow> holdsLock (at (calls s ! t')) \<Longrightarrow> t' = t"
  by (metis mutex_holder option.inject)

lemma fresh_RunAsync:
  assumes "mutex s" "fresh s" "t < length (calls s)" "RunAsync ext t s = Some s'"
  shows "fresh s'"
proof (cases "at (calls s ! t)")
  case (AtCreateLane u k)
  have other: "creating (at (calls s ! t')) = None" if "t' < length (calls s)" "t' \<noteq> t" for t'
  proof (cases "creating (at (calls s ! t'))")
    case (Some u')
    then have "holdsLock (at (calls s ! t'))" by (rule creating_holdsLock)
    with assms AtCreateLane that have "t' = t" by (auto intro: mutex_unique)
    with that show ?thesis by simp
  qed simp
  from assms AtCreateLane other show ?thesis
    by (auto simp: fresh_def RunAsync_def createUserWorker_def Let_def
             split: outcome.splits if_splits)
qed (use assms in \<open>auto simp: fresh_def RunAsync_def createUserWorker_def sendAndReturn_def Let_def
           split: sum.splits option.splits outcome.splits if_splits\<close>)

lemma fresh_Start:
  assumes "fresh s" "Start ext s = Some s'"
  shows "fresh s'"
  using assms
  by (cases "startCall s")
     (auto simp: fresh_def Start_def split: sum.splits option.splits outcome.splits if_splits)

lemma fresh_step:
  assumes "mutex s" "fresh s" "step ext ev s = Some s'"
  shows "fresh s'"
proof (cases ev)
  case (Submit job)
  with assms show ?thesis
    by (auto simp: fresh_def step_def nth_append split: if_splits)
next
  case (Run t)
  with assms show ?thesis
    by (auto simp: step_def split: if_splits intro: fresh_RunAsync)
next
  case RunStart
  with assms show ?thesis
    by (auto simp: step_def split: if_splits intro: fresh_Start)
next
  case (Take q)
  with assms show ?thesis
    by (auto simp: fresh_def step_def split: if_splits outcome.splits)
qed (use assms in \<open>auto simp: fresh_def step_def split: if_splits\<close>)


lemma laneLog_inject [simp]: "laneLog u = laneLog v \<longleftrightarrow> u = v"
  by (simp add: laneLog_def)

lemma laneLog_not_PoolLog [simp]: "laneLog u \<noteq> PoolLog" "PoolLog \<noteq> laneLog u"
  by (simp_all add: laneLog_def)

lemma lanes_None:
  "lanes s \<Longrightarrow> impersonationWorkersQueues s u = None \<Longrightarrow> laneWorkers u s = []"
  unfolding lanes_def by (erule allE [of _ u]) simp

lemma lanes_Some:
  "lanes s \<Longrightarrow> impersonationWorkersQueues s u = Some q \<Longrightarrow>
   q < length (chans s) \<and> q \<noteq> jobsQueue s
   \<and> (\<exists>k c. laneWorkers u s =
          [(newK8sWorkerWithClient (laneLog u) 1 (WithClient k) q, c)])"
  unfolding lanes_def by (erule allE [of _ u]) simp

lemma lanesI:
  assumes "\<And>u. impersonationWorkersQueues s u = None \<Longrightarrow> laneWorkers u s = []"
    and "\<And>u q. impersonationWorkersQueues s u = Some q \<Longrightarrow>
           q < length (chans s) \<and> q \<noteq> jobsQueue s
           \<and> (\<exists>k c. laneWorkers u s =
                 [(newK8sWorkerWithClient (laneLog u) 1 (WithClient k) q, c)])"
  shows "lanes s"
  unfolding lanes_def
proof
  fix u
  show "case impersonationWorkersQueues s u of
          None \<Rightarrow> laneWorkers u s = []
        | Some q \<Rightarrow>
            q < length (chans s) \<and> q \<noteq> jobsQueue s
            \<and> (\<exists>k c. laneWorkers u s =
                  [(newK8sWorkerWithClient (laneLog u) 1 (WithClient k) q, c)])"
    by (cases "impersonationWorkersQueues s u") (simp_all add: assms)
qed

lemma lanes_frame:
  assumes "lanes s"
    and "impersonationWorkersQueues s' = impersonationWorkersQueues s"
    and "\<And>u. laneWorkers u s' = laneWorkers u s"
    and "length (chans s) \<le> length (chans s')"
    and "jobsQueue s' = jobsQueue s"
  shows "lanes s'"
proof (rule lanesI)
  fix u assume "impersonationWorkersQueues s' u = None"
  with assms show "laneWorkers u s' = []" by (simp add: lanes_None)
next
  fix u q assume "impersonationWorkersQueues s' u = Some q"
  with assms(2) have "impersonationWorkersQueues s u = Some q" by simp
  from lanes_Some [OF assms(1) this] assms(3,4,5)
  show "q < length (chans s') \<and> q \<noteq> jobsQueue s'
        \<and> (\<exists>k c. laneWorkers u s' =
              [(newK8sWorkerWithClient (laneLog u) 1 (WithClient k) q, c)])"
    by auto
qed

lemma RunAsync_frame:
  assumes "RunAsync ext t s = Some s'" "t < length (calls s)"
  shows "kubeConfig s' = kubeConfig s \<and> jobsQueue s' = jobsQueue s \<and> poolSize s' = poolSize s
       \<and> startCall s' = startCall s \<and> cancelled s' = cancelled s \<and> ctx s' = ctx s
       \<and> length (chans s) \<le> length (chans s')
       \<and> length (calls s') = length (calls s)"
  using assms
  by (cases "at (calls s ! t)")
     (auto simp: RunAsync_def createUserWorker_def sendAndReturn_def Let_def
           split: sum.splits option.splits outcome.splits if_splits)

lemma RunAsync_frame_lane:
  assumes "RunAsync ext t s = Some s'" "t < length (calls s)"
    and "\<And>u k. at (calls s ! t) \<noteq> AtCreateLane u k"
  shows "started s' = started s
       \<and> impersonationWorkersQueues s' = impersonationWorkersQueues s
       \<and> length (chans s') = length (chans s)"
  using assms
  by (cases "at (calls s ! t)")
     (auto simp: RunAsync_def createUserWorker_def sendAndReturn_def Let_def
           split: sum.splits option.splits outcome.splits if_splits)

lemma lanes_RunAsync:
  assumes "fresh s" "lanes s" "jobsQueue s < length (chans s)"
    "t < length (calls s)" "RunAsync ext t s = Some s'"
  shows "lanes s'"
proof (cases "\<exists>u k. at (calls s ! t) = AtCreateLane u k")
  case False
  with assms have "started s' = started s
       \<and> impersonationWorkersQueues s' = impersonationWorkersQueues s
       \<and> length (chans s') = length (chans s)"
    by (intro RunAsync_frame_lane [of ext t s s']) auto
  moreover from assms have "jobsQueue s' = jobsQueue s"
    by (simp add: RunAsync_frame)
  ultimately show ?thesis
    using assms(2) by (intro lanes_frame [of s s']) (simp_all add: laneWorkers_def)
next
  case True
  then obtain u k where pc: "at (calls s ! t) = AtCreateLane u k" by blast
  with assms have none: "impersonationWorkersQueues s u = None"
    by (auto simp: fresh_def)
  with assms have nil: "laneWorkers u s = []"
    by (simp add: lanes_None)
  show ?thesis
  proof (cases "makeChan (poolSize s) :: ('a, 'b) chan outcome")
    case (Done ch)
    with assms pc
    have s': "s' = goto t (AtReadQueue u)
                 (s\<lparr>chans := chans s @ [ch],
                    started := started s @
                      [(newK8sWorkerWithClient (laneLog u) 1 (WithClient k) (length (chans s)), ctx s)],
                    impersonationWorkersQueues :=
                      (impersonationWorkersQueues s)(u \<mapsto> length (chans s))\<rparr>)"
      by (simp add: RunAsync_def createUserWorker_def Let_def)
    show ?thesis
    proof (rule lanesI)
      fix v assume "impersonationWorkersQueues s' v = None"
      with s' have "v \<noteq> u" "impersonationWorkersQueues s v = None"
        by (auto split: if_splits)
      with assms(2) s' show "laneWorkers v s' = []"
        using lanes_None [of s v] by (simp add: laneWorkers_def newK8sWorkerWithClient_def)
    next
      fix v q assume q: "impersonationWorkersQueues s' v = Some q"
      show "q < length (chans s') \<and> q \<noteq> jobsQueue s'
        \<and> (\<exists>k c. laneWorkers v s' =
              [(newK8sWorkerWithClient (laneLog v) 1 (WithClient k) q, c)])"
      proof (cases "v = u")
        case True
        with s' q nil assms(3) show ?thesis
          by (auto simp: laneWorkers_def newK8sWorkerWithClient_def)
      next
        case False
        with s' q have "impersonationWorkersQueues s v = Some q" by simp
        from lanes_Some [OF assms(2) this] False s' show ?thesis
          by (auto simp: laneWorkers_def newK8sWorkerWithClient_def)
      qed
    qed
  next
    case (Panic m)
    with assms pc have "s' = panic m s"
      by (simp add: RunAsync_def createUserWorker_def)
    with assms(2) show ?thesis
      by (intro lanes_frame [of s s']) (simp_all add: laneWorkers_def)
  next
    case Blocked
    with assms pc show ?thesis
      by (simp add: RunAsync_def createUserWorker_def)
  qed
qed


lemma lanes_Start:
  assumes "lanes s" "Start ext s = Some s'"
  shows "lanes s'"
proof -
  from assms(2) have "impersonationWorkersQueues s' = impersonationWorkersQueues s
      \<and> (\<forall>u. laneWorkers u s' = laneWorkers u s)
      \<and> length (chans s) \<le> length (chans s') \<and> jobsQueue s' = jobsQueue s"
    by (cases "startCall s")
       (auto simp: Start_def laneWorkers_def newK8sWorker_def newK8sWorkerWithClient_def
             split: sum.splits option.splits outcome.splits if_splits)
  with assms(1) show ?thesis by (intro lanes_frame [of s s']) simp_all
qed

lemma lanes_step:
  assumes "fresh s" "lanes s" "jobsQueue s < length (chans s)" "step ext ev s = Some s'"
  shows "lanes s'"
proof (cases ev)
  case (Run t)
  with assms show ?thesis
    by (auto simp: step_def split: if_splits intro: lanes_RunAsync)
next
  case RunStart
  with assms show ?thesis
    by (auto simp: step_def split: if_splits intro: lanes_Start)
next
  case (Submit job)
  with assms have "s' = s\<lparr>calls := calls s @ [\<lparr>cjob = job, at = AtGetUserIdentity\<rparr>]\<rparr>"
    by (auto simp: step_def split: if_splits)
  with assms(2) show ?thesis
    by (intro lanes_frame [of s s']) (simp_all add: laneWorkers_def)
next
  case (CallStart c)
  with assms have "s' = s\<lparr>startCall := AtLoop c 1\<rparr>"
    by (auto simp: step_def split: if_splits)
  with assms(2) show ?thesis
    by (intro lanes_frame [of s s']) (simp_all add: laneWorkers_def)
next
  case (Cancel c)
  with assms have "s' = s\<lparr>cancelled := c # cancelled s\<rparr>"
    by (auto simp: step_def split: if_splits)
  with assms(2) show ?thesis
    by (intro lanes_frame [of s s']) (simp_all add: laneWorkers_def)
next
  case (Take q)
  with assms have "impersonationWorkersQueues s' = impersonationWorkersQueues s
      \<and> started s' = started s
      \<and> length (chans s) \<le> length (chans s') \<and> jobsQueue s' = jobsQueue s"
    by (auto simp: step_def split: if_splits outcome.splits)
  with assms(2) show ?thesis
    by (intro lanes_frame [of s s']) (simp_all add: laneWorkers_def)
qed

lemma nilCtx_RunAsync:
  assumes "nilCtx s" "t < length (calls s)" "RunAsync ext t s = Some s'"
  shows "nilCtx s'"
  using assms
  by (cases "at (calls s ! t)")
     (auto simp: nilCtx_def RunAsync_def createUserWorker_def sendAndReturn_def Let_def
           split: sum.splits option.splits outcome.splits if_splits)

lemma nilCtx_Start:
  assumes "nilCtx s" "Start ext s = Some s'"
  shows "nilCtx s'"
  using assms
  by (cases "startCall s")
     (auto simp: nilCtx_def Start_def newK8sWorker_def newK8sWorkerWithClient_def
           split: sum.splits option.splits outcome.splits if_splits)

lemma nilCtx_step:
  assumes "nilCtx s" "step ext ev s = Some s'"
  shows "nilCtx s'"
proof (cases ev)
  case (Run t)
  with assms show ?thesis
    by (auto simp: step_def split: if_splits intro: nilCtx_RunAsync)
next
  case RunStart
  with assms show ?thesis
    by (auto simp: step_def split: if_splits intro: nilCtx_Start)
next
  case (Take q)
  with assms show ?thesis
    by (auto simp: nilCtx_def step_def split: if_splits outcome.splits)
qed (use assms in \<open>auto simp: nilCtx_def step_def split: if_splits\<close>)


lemma startInv_frame:
  assumes "startInv ext s"
    and "startCall s' = startCall s" "poolSize s' = poolSize s" "kubeConfig s' = kubeConfig s"
    and "jobsQueue s' = jobsQueue s" "ctx s' = ctx s" "defaultWorkers s' = defaultWorkers s"
    and "length (chans s) \<le> length (chans s')"
    and "closed (chans s' ! jobsQueue s) = closed (chans s ! jobsQueue s)"
    and "set (cancelled s) \<subseteq> set (cancelled s')"
  shows "startInv ext s'"
proof (cases "startCall s")
  case (StartReturned r)
  with assms show ?thesis
    by (cases r) (auto simp: startInv_def spawned_def)
qed (use assms in \<open>auto simp: startInv_def spawned_def\<close>)

lemma closed_update:
  "jq < length xs \<Longrightarrow>
   closed (xs[c := ch] ! jq) = (if c = jq then closed ch else closed (xs ! jq))"
  by (simp add: nth_list_update)

lemma RunAsync_frame_default:
  assumes "RunAsync ext t s = Some s'" "t < length (calls s)" "jobsQueue s < length (chans s)"
  shows "defaultWorkers s' = defaultWorkers s
       \<and> closed (chans s' ! jobsQueue s) = closed (chans s ! jobsQueue s)"
  using assms
  by (cases "at (calls s ! t)")
     (auto simp: RunAsync_def createUserWorker_def sendAndReturn_def Let_def defaultWorkers_def
             send_def closed_update nth_append newK8sWorkerWithClient_def
           split: sum.splits option.splits outcome.splits if_splits)

lemma startInv_RunAsync:
  assumes "startInv ext s" "t < length (calls s)" "RunAsync ext t s = Some s'"
  shows "startInv ext s'"
proof -
  from assms(1) have jq: "jobsQueue s < length (chans s)" by (simp add: startInv_def)
  from RunAsync_frame [OF assms(3,2)] RunAsync_frame_default [OF assms(3,2) jq] assms(1)
  show ?thesis by (intro startInv_frame [of ext s s']) simp_all
qed

lemma spawned_snoc:
  "1 \<le> i \<Longrightarrow> spawned c i s =
     spawned c (i - 1) s
     @ [(newK8sWorkerWithClient PoolLog i (FromKubeConfig (kubeConfig s)) (jobsQueue s), Some c)]"
  by (simp add: spawned_def upto_rec2)

lemma startInv_AtLoop:
  "startInv ext s \<Longrightarrow> startCall s = AtLoop c i \<Longrightarrow>
   jobsQueue s < length (chans s) \<and> 1 \<le> i
   \<and> (\<forall>j \<in> {1..<i}. j \<le> poolSize s \<and> workerError ext j = None)
   \<and> defaultWorkers s = spawned c (i - 1) s
   \<and> ctx s = None \<and> \<not> closed (chans s ! jobsQueue s)"
  by (simp add: startInv_def)

lemma defaultWorkers_snoc:
  "defaultWorkers (s\<lparr>started := started s @ [(w, c)], startCall := p\<rparr>) =
     defaultWorkers s @ (if wqueue w = jobsQueue s then [(w, c)] else [])"
  by (simp add: defaultWorkers_def)

lemma startInv_Start:
  assumes "startInv ext s" "Start ext s = Some s'"
  shows "startInv ext s'"
proof (cases "startCall s")
  case NotCalled
  with assms show ?thesis by (simp add: Start_def)
next
  case (AtLoop c i)
  note inv = startInv_AtLoop [OF assms(1) AtLoop]
  show ?thesis
  proof (cases "i \<le> poolSize s")
    case True
    show ?thesis
    proof (cases "workerError ext i")
      case None
      with assms AtLoop True
      have s': "s' = s\<lparr>started := started s @
                   [(newK8sWorkerWithClient PoolLog i (FromKubeConfig (kubeConfig s)) (jobsQueue s),
                     Some c)],
                 startCall := AtLoop c (i + 1)\<rparr>"
        by (simp add: Start_def newK8sWorker_def)
      have ok: "\<forall>j \<in> {1..<i + 1}. j \<le> poolSize s' \<and> workerError ext j = None"
      proof
        fix j assume "j \<in> {1..<i + 1}"
        then have "j \<in> {1..<i} \<or> j = i" by auto
        with inv True None s' show "j \<le> poolSize s' \<and> workerError ext j = None" by auto
      qed
      have "defaultWorkers s' = spawned c (i - 1) s @
              [(newK8sWorkerWithClient PoolLog i (FromKubeConfig (kubeConfig s)) (jobsQueue s),
                Some c)]"
        using inv unfolding s' defaultWorkers_snoc by (simp add: newK8sWorkerWithClient_def)
      also have "\<dots> = spawned c i s" using inv by (simp add: spawned_snoc [of i])
      finally have dw: "defaultWorkers s' = spawned c (i + 1 - 1) s'"
        using s' by (simp add: spawned_def)
      from inv s' have rest: "jobsQueue s' < length (chans s') \<and> (1::int) \<le> i + 1
          \<and> ctx s' = None \<and> \<not> closed (chans s' ! jobsQueue s')
          \<and> startCall s' = AtLoop c (i + 1)"
        by simp
      with ok dw show ?thesis by (simp add: startInv_def)
    next
      case (Some err)
      with assms AtLoop True
      have s': "s' = s\<lparr>startCall := StartReturned (Some (Errorf ''failed to start k8s workers pool''
                        err))\<rparr>"
        by (simp add: Start_def newK8sWorker_def)
      from inv s' have dw: "defaultWorkers s' = spawned c (i - 1) s'"
        by (simp add: defaultWorkers_def spawned_def)
      from inv True Some dw s'
      have "\<exists>c i erra. 1 \<le> i \<and> i \<le> poolSize s'
                \<and> (\<forall>j \<in> {1..<i}. workerError ext j = None)
                \<and> workerError ext i = Some erra
                \<and> Errorf ''failed to start k8s workers pool''
                        err
                   = Errorf ''failed to start k8s workers pool''
                        erra
                \<and> defaultWorkers s' = spawned c (i - 1) s'"
        by (intro exI [of _ c] exI [of _ i] exI [of _ err]) simp
      moreover from inv s' have "jobsQueue s' < length (chans s') \<and> ctx s' = None
          \<and> \<not> closed (chans s' ! jobsQueue s')" by simp
      ultimately show ?thesis unfolding startInv_def s' by simp
    qed
  next
    case False
    with assms AtLoop have s': "s' = s\<lparr>startCall := AtSetCtx c\<rparr>"
      by (simp add: Start_def)
    have "[1..i - 1] = [1..poolSize s]"
    proof (cases "i = 1")
      case True
      with False show ?thesis by simp
    next
      case ne: False
      with inv have "i - 1 \<in> {1..<i}" by auto
      with inv have "i - 1 \<le> poolSize s" by blast
      with False have "i - 1 = poolSize s" by simp
      then show ?thesis by simp
    qed
    then have sp: "spawned c (i - 1) s = spawned c (poolSize s) s"
      by (simp add: spawned_def)
    have ok: "\<forall>j \<in> {1..poolSize s'}. workerError ext j = None"
    proof
      fix j assume "j \<in> {1..poolSize s'}"
      with False s' have "j \<in> {1..<i}" by auto
      with inv show "workerError ext j = None" by blast
    qed
    from inv s' sp have "jobsQueue s' < length (chans s')
        \<and> defaultWorkers s' = spawned c (poolSize s') s'
        \<and> ctx s' = None \<and> \<not> closed (chans s' ! jobsQueue s')"
      by (simp add: defaultWorkers_def spawned_def)
    with ok show ?thesis unfolding startInv_def s' by simp
  qed
next
  case (AtSetCtx c)
  with assms have s': "s' = s\<lparr>ctx := Some c, startCall := AtWait c\<rparr>"
    by (simp add: Start_def)
  from assms(1) AtSetCtx show ?thesis unfolding s'
    by (simp add: startInv_def defaultWorkers_def spawned_def)
next
  case (AtWait c)
  with assms have s': "s' = s\<lparr>startCall := AtClose c\<rparr>" "c \<in> set (cancelled s)"
    by (simp_all add: Start_def split: if_splits)
  from assms(1) AtWait show ?thesis unfolding s'
    by (simp add: startInv_def defaultWorkers_def spawned_def s'(2))
next
  case (AtClose c)
  with assms(1) have inv: "jobsQueue s < length (chans s)
      \<and> defaultWorkers s = spawned c (poolSize s) s
      \<and> ctx s = Some c \<and> c \<in> set (cancelled s) \<and> \<not> closed (chans s ! jobsQueue s)"
    by (simp add: startInv_def)
  with assms AtClose
  have s': "s' = s\<lparr>chans := (chans s)[jobsQueue s := (chans s ! jobsQueue s)\<lparr>closed := True\<rparr>],
                   startCall := StartReturned None\<rparr>"
    by (simp add: Start_def close_def)
  from inv have "\<exists>c. defaultWorkers s' = spawned c (poolSize s') s'
                \<and> ctx s' = Some c \<and> c \<in> set (cancelled s')"
    unfolding s' by (intro exI [of _ c]) (simp add: defaultWorkers_def spawned_def)
  moreover from inv have "jobsQueue s' < length (chans s') \<and> closed (chans s' ! jobsQueue s')"
    unfolding s' by simp
  ultimately show ?thesis unfolding startInv_def s' by simp
next
  case (StartReturned r)
  with assms show ?thesis by (simp add: Start_def)
qed


lemma startInv_step:
  assumes "startInv ext s" "step ext ev s = Some s'"
  shows "startInv ext s'"
proof (cases ev)
  case (Run t)
  with assms show ?thesis
    by (auto simp: step_def split: if_splits intro: startInv_RunAsync)
next
  case RunStart
  with assms show ?thesis
    by (auto simp: step_def split: if_splits intro: startInv_Start)
next
  case (Submit job)
  with assms have "s' = s\<lparr>calls := calls s @ [\<lparr>cjob = job, at = AtGetUserIdentity\<rparr>]\<rparr>"
    by (auto simp: step_def split: if_splits)
  with assms(1) show ?thesis
    by (intro startInv_frame [of ext s s']) (simp_all add: defaultWorkers_def)
next
  case (CallStart c)
  with assms have "s' = s\<lparr>startCall := AtLoop c 1\<rparr>" "startCall s = NotCalled"
    by (auto simp: step_def split: if_splits)
  with assms(1) show ?thesis
    by (simp add: startInv_def defaultWorkers_def spawned_def)
next
  case (Cancel c)
  with assms have "s' = s\<lparr>cancelled := c # cancelled s\<rparr>"
    by (auto simp: step_def split: if_splits)
  with assms(1) show ?thesis
    by (intro startInv_frame [of ext s s']) (auto simp: defaultWorkers_def)
next
  case (Take q)
  from assms(1) have jq: "jobsQueue s < length (chans s)" by (simp add: startInv_def)
  from Take assms(2) jq have "startCall s' = startCall s \<and> poolSize s' = poolSize s
      \<and> kubeConfig s' = kubeConfig s \<and> jobsQueue s' = jobsQueue s \<and> ctx s' = ctx s
      \<and> started s' = started s \<and> length (chans s) \<le> length (chans s')
      \<and> closed (chans s' ! jobsQueue s) = closed (chans s ! jobsQueue s)
      \<and> cancelled s' = cancelled s"
    by (auto simp: step_def receive_def closed_update
             split: if_splits outcome.splits list.splits)
  with assms(1) show ?thesis
    by (intro startInv_frame [of ext s s']) (simp_all add: defaultWorkers_def)
qed

lemma inv_step:
  assumes "inv ext s" "step ext ev s = Some s'"
  shows "inv ext s'"
proof -
  from assms(1) have m: "mutex s" and f: "fresh s" and l: "lanes s" and n: "nilCtx s"
    and st: "startInv ext s"
    by (simp_all add: inv_def)
  from st have jq: "jobsQueue s < length (chans s)" by (simp add: startInv_def)
  show ?thesis
    unfolding inv_def
    using mutex_step [OF m assms(2)] fresh_step [OF m f assms(2)]
      lanes_step [OF f l jq assms(2)] nilCtx_step [OF n assms(2)]
      startInv_step [OF st assms(2)]
    by simp
qed

lemma inv_exec: "inv ext s \<Longrightarrow> inv ext (exec ext evs s)"
proof (induction evs arbitrary: s)
  case (Cons ev evs)
  show ?case
  proof (cases "step ext ev s")
    case None
    with Cons show ?thesis by simp
  next
    case (Some s')
    with Cons.prems have "inv ext s'" by (auto intro: inv_step)
    with Cons.IH Some show ?thesis by simp
  qed
qed simp

lemma readEnvVars_positive: "1 \<le> fst (readEnvVars env)"
  by (auto simp: readEnvVars_def defaultK8sClientsPoolSize_def split: option.splits sum.splits)

lemma inv_AddK8sWorkerPool:
  assumes "AddK8sWorkerPool inCluster env addErr = Inr s"
  shows "inv ext s"
  using assms
  by (auto simp: AddK8sWorkerPool_def inv_def mutex_def fresh_def lanes_def laneWorkers_def
        nilCtx_def startInv_def defaultWorkers_def Let_def
      split: sum.splits option.splits)

lemma inv_run:
  "AddK8sWorkerPool inCluster env addErr = Inr s0 \<Longrightarrow> inv ext (exec ext evs s0)"
  by (intro inv_exec inv_AddK8sWorkerPool)

subsection \<open>Evaluating a concrete run\<close>

lemmas run_defs =
  step_def RunAsync_def createUserWorker_def sendAndReturn_def Start_def goto_def panic_def
  send_def makeChan_def close_def receive_def newK8sWorker_def newK8sWorkerWithClient_def
  NewK8sJob_def Let_def demoExt_def brokenExt_def demoPool_def job_def
  aliceRace_def aliceBlocked_def laneBeforeStart_def startFails_def carolDropped_def
  lanesThenCarol_def afterShutdown_def

lemma demoPool_built: "AddK8sWorkerPool (Inr 7) (Some ''2'') None = Inr demoPool"
  by (simp add: AddK8sWorkerPool_def readEnvVars_def Atoi_def isDigit_def demoPool_def)

lemma exec_append: "exec ext (evs @ later) s = exec ext later (exec ext evs s)"
  by (induction evs arbitrary: s) simp_all

subsection \<open>Lanes, the mutex and the context\<close>

lemma Start_frame_lane:
  assumes "Start ext s = Some s'"
  shows "impersonationWorkersQueues s' = impersonationWorkersQueues s
      \<and> laneWorkers u s' = laneWorkers u s"
  using assms
  by (cases "startCall s")
     (auto simp: Start_def laneWorkers_def newK8sWorker_def newK8sWorkerWithClient_def
           split: sum.splits option.splits outcome.splits if_splits)

lemma lane_stable_RunAsync:
  assumes "fresh s" "impersonationWorkersQueues s u = Some q"
    "t < length (calls s)" "RunAsync ext t s = Some s'"
  shows "impersonationWorkersQueues s' u = Some q \<and> laneWorkers u s' = laneWorkers u s"
proof (cases "\<exists>v k. at (calls s ! t) = AtCreateLane v k")
  case False
  with assms have "started s' = started s
       \<and> impersonationWorkersQueues s' = impersonationWorkersQueues s
       \<and> length (chans s') = length (chans s)"
    by (intro RunAsync_frame_lane [of ext t s s']) auto
  with assms(2) show ?thesis by (simp add: laneWorkers_def)
next
  case True
  then obtain v k where pc: "at (calls s ! t) = AtCreateLane v k" by blast
  with assms have "impersonationWorkersQueues s v = None" by (auto simp: fresh_def)
  with assms(2) have "v \<noteq> u" by auto
  with assms pc show ?thesis
    by (auto simp: RunAsync_def createUserWorker_def Let_def laneWorkers_def
          newK8sWorkerWithClient_def split: outcome.splits)
qed

lemma lane_stable_step:
  assumes "inv ext s" "impersonationWorkersQueues s u = Some q" "step ext ev s = Some s'"
  shows "impersonationWorkersQueues s' u = Some q \<and> laneWorkers u s' = laneWorkers u s"
proof (cases ev)
  case (Run t)
  with assms show ?thesis
    by (auto simp: step_def inv_def split: if_splits dest: lane_stable_RunAsync)
next
  case RunStart
  with assms show ?thesis
    by (auto simp: step_def split: if_splits dest: Start_frame_lane)
next
  case (Take c)
  with assms show ?thesis
    by (auto simp: step_def laneWorkers_def split: if_splits outcome.splits)
qed (use assms in \<open>auto simp: step_def laneWorkers_def split: if_splits\<close>)

lemma lane_stable_exec:
  "inv ext s \<Longrightarrow> impersonationWorkersQueues s u = Some q \<Longrightarrow>
   impersonationWorkersQueues (exec ext evs s) u = Some q
   \<and> laneWorkers u (exec ext evs s) = laneWorkers u s"
proof (induction evs arbitrary: s)
  case (Cons ev evs)
  show ?case
  proof (cases "step ext ev s")
    case None
    with Cons show ?thesis by simp
  next
    case (Some s')
    with Cons.prems have "inv ext s'"
      and "impersonationWorkersQueues s' u = Some q \<and> laneWorkers u s' = laneWorkers u s"
      by (auto intro: inv_step dest: lane_stable_step)
    with Cons.IH [of s'] Some show ?thesis by simp
  qed
qed simp

text \<open>
  At most one lane for an identity. In every run of a pool built by
  \<open>AddK8sWorkerPool\<close>, whatever the interleaving of the calls of \<^verbatim>\<open>RunAsync\<close>, at most
  one worker has been started under \<open>laneLog u\<close>, none while the map has no entry for
  \<open>u\<close>; and once the map has the entry \<open>q\<close> for \<open>u\<close>, that entry and that one lane
  stay as they are in every continuation of the run.
\<close>

theorem lane_created_at_most_once:
  assumes "AddK8sWorkerPool inCluster env addErr = Inr s0"
  shows "length (laneWorkers u (exec ext evs s0)) \<le> 1
     \<and> (impersonationWorkersQueues (exec ext evs s0) u = None \<longrightarrow>
          laneWorkers u (exec ext evs s0) = [])
     \<and> (impersonationWorkersQueues (exec ext evs s0) u = Some q \<longrightarrow>
          (\<exists>k c. laneWorkers u (exec ext evs s0) =
                    [(newK8sWorkerWithClient (laneLog u) 1 (WithClient k) q, c)])
          \<and> impersonationWorkersQueues (exec ext (evs @ later) s0) u = Some q
          \<and> laneWorkers u (exec ext (evs @ later) s0) = laneWorkers u (exec ext evs s0))"
proof -
  let ?s = "exec ext evs s0"
  from assms have i: "inv ext ?s" by (rule inv_run)
  then have l: "lanes ?s" by (simp add: inv_def)
  have a: "impersonationWorkersQueues ?s u = None \<longrightarrow> laneWorkers u ?s = []"
    using l by (simp add: lanes_None)
  have b: "impersonationWorkersQueues ?s u = Some q \<longrightarrow>
          (\<exists>k c. laneWorkers u ?s = [(newK8sWorkerWithClient (laneLog u) 1 (WithClient k) q, c)])
          \<and> impersonationWorkersQueues (exec ext (evs @ later) s0) u = Some q
          \<and> laneWorkers u (exec ext (evs @ later) s0) = laneWorkers u ?s"
    using lanes_Some [OF l, of u q] lane_stable_exec [OF i, of u q later]
    by (simp add: exec_append)
  have c: "length (laneWorkers u ?s) \<le> 1"
  proof (cases "impersonationWorkersQueues ?s u")
    case None
    with a show ?thesis by simp
  next
    case (Some q')
    from lanes_Some [OF l this] show ?thesis by auto
  qed
  from a b c show ?thesis by blast
qed

theorem lane_created_at_most_once_witness:
  "AddK8sWorkerPool (Inr 7) (Some ''2'') None = Inr demoPool
   \<and> impersonationWorkersQueues (exec demoExt aliceRace demoPool) ''alice'' = Some 1
   \<and> length (laneWorkers ''alice'' (exec demoExt aliceRace demoPool)) \<le> 1
   \<and> impersonationWorkersQueues
        (exec demoExt (aliceRace @ [Submit (job ''alice''), Run 2, Run 2, Run 2, Run 2]) demoPool)
        ''alice'' = Some 1
   \<and> laneWorkers ''alice''
        (exec demoExt (aliceRace @ [Submit (job ''alice''), Run 2, Run 2, Run 2, Run 2]) demoPool)
       = laneWorkers ''alice'' (exec demoExt aliceRace demoPool)"
proof -
  have h: "impersonationWorkersQueues (exec demoExt aliceRace demoPool) ''alice'' = Some 1"
    by (simp add: run_defs)
  from lane_created_at_most_once
         [OF demoPool_built, of "''alice''" demoExt aliceRace 1
            "[Submit (job ''alice''), Run 2, Run 2, Run 2, Run 2]"] h
  show ?thesis using demoPool_built by simp
qed

lemma queueKnown_mono:
  assumes "queueKnown m p" "\<And>u c. m u = Some c \<Longrightarrow> m' u = Some c"
  shows "queueKnown m' p"
proof (cases p)
  case (AtReadQueue u)
  with assms(1) obtain c where "m u = Some c" by auto
  with assms(2) AtReadQueue show ?thesis by simp
next
  case (AtUnlock q)
  with assms(1) obtain u c where "q = Some c" "m u = Some c" by auto
  with assms(2) [of u c] AtUnlock show ?thesis by auto
next
  case (AtLaneSend q)
  with assms(1) obtain u c where "q = Some c" "m u = Some c" by auto
  with assms(2) [of u c] AtLaneSend show ?thesis by auto
qed simp_all

lemma RunAsync_others:
  assumes "RunAsync ext t s = Some s'" "t < length (calls s)" "t' \<noteq> t"
  shows "calls s' ! t' = calls s ! t'"
  using assms
  by (cases "at (calls s ! t)")
     (auto simp: RunAsync_def createUserWorker_def sendAndReturn_def Let_def goto_def
           split: sum.splits option.splits outcome.splits if_splits)

lemma resolved_RunAsync:
  assumes "fresh s" "resolved s" "t < length (calls s)" "RunAsync ext t s = Some s'"
  shows "resolved s'"
proof -
  have mono: "impersonationWorkersQueues s' u = Some q"
    if "impersonationWorkersQueues s u = Some q" for u q
    using lane_stable_RunAsync [OF assms(1) that assms(3,4)] by simp
  from RunAsync_frame [OF assms(4,3)] have len: "length (calls s') = length (calls s)" by simp
  from assms(2,3) have "queueKnown (impersonationWorkersQueues s) (at (calls s ! t))"
    by (simp add: resolved_def)
  with assms(3,4) have self: "queueKnown (impersonationWorkersQueues s') (at (calls s' ! t))"
    by (cases "at (calls s ! t)")
       (auto simp: RunAsync_def createUserWorker_def sendAndReturn_def Let_def
             split: sum.splits option.splits outcome.splits if_splits)
  show ?thesis
    unfolding resolved_def
  proof (intro allI impI)
    fix t' assume t': "t' < length (calls s')"
    show "queueKnown (impersonationWorkersQueues s') (at (calls s' ! t'))"
    proof (cases "t' = t")
      case True
      with self show ?thesis by simp
    next
      case False
      from assms(2) t' len
      have "queueKnown (impersonationWorkersQueues s) (at (calls s ! t'))"
        by (simp add: resolved_def)
      then have "queueKnown (impersonationWorkersQueues s') (at (calls s ! t'))"
        by (rule queueKnown_mono) (rule mono)
      with RunAsync_others [OF assms(4,3) False] show ?thesis by simp
    qed
  qed
qed

lemma resolved_frame:
  "resolved s \<Longrightarrow> calls s' = calls s \<Longrightarrow>
   impersonationWorkersQueues s' = impersonationWorkersQueues s \<Longrightarrow> resolved s'"
  by (simp add: resolved_def)

lemma resolved_step:
  assumes "fresh s" "resolved s" "step ext ev s = Some s'"
  shows "resolved s'"
proof (cases ev)
  case (Run t)
  with assms show ?thesis
    by (auto simp: step_def split: if_splits intro: resolved_RunAsync)
next
  case RunStart
  with assms(3) have "calls s' = calls s
      \<and> impersonationWorkersQueues s' = impersonationWorkersQueues s"
    by (cases "startCall s")
       (auto simp: step_def Start_def split: if_splits sum.splits outcome.splits)
  with assms(2) show ?thesis by (simp add: resolved_frame)
next
  case (Submit j)
  with assms show ?thesis
    by (auto simp: step_def resolved_def nth_append split: if_splits)
next
  case (Take c)
  with assms(3) have "calls s' = calls s
      \<and> impersonationWorkersQueues s' = impersonationWorkersQueues s"
    by (auto simp: step_def split: if_splits outcome.splits)
  with assms(2) show ?thesis by (simp add: resolved_frame)
qed (use assms in \<open>auto simp: step_def resolved_def split: if_splits\<close>)

lemma resolved_exec: "inv ext s \<Longrightarrow> resolved s \<Longrightarrow> resolved (exec ext evs s)"
proof (induction evs arbitrary: s)
  case (Cons ev evs)
  show ?case
  proof (cases "step ext ev s")
    case None
    with Cons show ?thesis by simp
  next
    case (Some s')
    from Cons.prems(1) have "fresh s" by (simp add: inv_def)
    from resolved_step [OF this Cons.prems(2) Some] inv_step [OF Cons.prems(1) Some]
      Cons.IH [of s'] Some
    show ?thesis by simp
  qed
qed simp

lemma resolved_run:
  assumes "AddK8sWorkerPool inCluster env addErr = Inr s0"
  shows "resolved (exec ext evs s0)"
proof -
  from assms have "resolved s0"
    by (auto simp: AddK8sWorkerPool_def resolved_def Let_def split: sum.splits option.splits)
  with inv_AddK8sWorkerPool [OF assms] show ?thesis by (rule resolved_exec)
qed

text \<open>
  Claim C4. In every run, a call of \<^verbatim>\<open>RunAsync\<close> that stands at the send on a lane's
  queue (line 128) does not hold the mutex: it has run \<^verbatim>\<open>Unlock\<close> (line 127), the only
  statement that leads there. So the mutex is never held by a call that is blocked on a
  full lane queue. The queue it sends on is the lane's queue of some identity in the
  map, a channel of the store other than the default queue.
\<close>

theorem lock_released_before_lane_send:
  assumes "AddK8sWorkerPool inCluster env addErr = Inr s0"
  shows "t < length (calls (exec ext evs s0))
         \<and> at (calls (exec ext evs s0) ! t) = AtLaneSend q
         \<longrightarrow> impersonationWorkersLock (exec ext evs s0) \<noteq> Some t
             \<and> (\<exists>u c. q = Some c \<and> impersonationWorkersQueues (exec ext evs s0) u = Some c
                   \<and> c < length (chans (exec ext evs s0))
                   \<and> c \<noteq> jobsQueue (exec ext evs s0))"
proof (intro impI, elim conjE)
  let ?s = "exec ext evs s0"
  assume t: "t < length (calls ?s)" and pc: "at (calls ?s ! t) = AtLaneSend q"
  from assms have i: "inv ext ?s" by (rule inv_run)
  then have "mutex ?s" by (simp add: inv_def)
  with t pc have a: "impersonationWorkersLock ?s \<noteq> Some t" by (auto simp: mutex_def)
  from resolved_run [OF assms, of ext evs] t
  have "queueKnown (impersonationWorkersQueues ?s) (at (calls ?s ! t))"
    by (simp add: resolved_def)
  with pc obtain u c where q: "q = Some c" "impersonationWorkersQueues ?s u = Some c"
    by auto
  from i have "lanes ?s" by (simp add: inv_def)
  from lanes_Some [OF this q(2)] q a
  show "impersonationWorkersLock ?s \<noteq> Some t
        \<and> (\<exists>u c. q = Some c \<and> impersonationWorkersQueues ?s u = Some c
              \<and> c < length (chans ?s) \<and> c \<noteq> jobsQueue ?s)"
    by blast
qed

theorem lock_released_before_lane_send_witness:
  "AddK8sWorkerPool (Inr 7) (Some ''2'') None = Inr demoPool
   \<and> 2 < length (calls (exec demoExt aliceBlocked demoPool))
   \<and> at (calls (exec demoExt aliceBlocked demoPool) ! 2) = AtLaneSend (Some 1)
   \<and> step demoExt (Run 2) (exec demoExt aliceBlocked demoPool) = None
   \<and> impersonationWorkersLock (exec demoExt aliceBlocked demoPool) \<noteq> Some 2"
proof -
  have h: "2 < length (calls (exec demoExt aliceBlocked demoPool))
     \<and> at (calls (exec demoExt aliceBlocked demoPool) ! 2) = AtLaneSend (Some 1)"
    by (simp add: run_defs)
  have b: "step demoExt (Run 2) (exec demoExt aliceBlocked demoPool) = None"
    by (simp add: run_defs)
  from lock_released_before_lane_send
         [OF demoPool_built, of 2 demoExt aliceBlocked "Some 1"] h b
  show ?thesis using demoPool_built by simp
qed

text \<open>
  Claim C9. \<^verbatim>\<open>pool.ctx\<close> is assigned only by line 93 of \<^verbatim>\<open>Start\<close>, after the loop that
  spawns the default workers. In every run, as long as that line has not run (\<^verbatim>\<open>Start\<close>
  is not called yet, is still in its loop, or has failed), \<^verbatim>\<open>pool.ctx\<close> is nil and every
  lane worker created so far was started with the nil context.
\<close>

theorem lane_worker_gets_nil_context:
  assumes "AddK8sWorkerPool inCluster env addErr = Inr s0"
  shows "ctxUnassigned (startCall (exec ext evs s0)) \<longrightarrow>
           ctx (exec ext evs s0) = None
           \<and> (\<forall>wc \<in> set (started (exec ext evs s0)).
                 wlog (fst wc) \<noteq> PoolLog \<longrightarrow> snd wc = None)"
  using inv_run [OF assms, of ext evs] by (simp add: inv_def nilCtx_def)


theorem lane_worker_gets_nil_context_witness:
  "AddK8sWorkerPool (Inr 7) (Some ''2'') None = Inr demoPool
   \<and> startCall (exec demoExt laneBeforeStart demoPool) = NotCalled
   \<and> map (wlog \<circ> fst) (started (exec demoExt laneBeforeStart demoPool)) = [laneLog ''alice'']
   \<and> ctx (exec demoExt laneBeforeStart demoPool) = None
   \<and> snd (hd (started (exec demoExt laneBeforeStart demoPool))) = None"
proof -
  have h: "startCall (exec demoExt laneBeforeStart demoPool) = NotCalled
     \<and> map (wlog \<circ> fst) (started (exec demoExt laneBeforeStart demoPool)) = [laneLog ''alice'']"
    by (simp add: run_defs)
  then have u: "ctxUnassigned (startCall (exec demoExt laneBeforeStart demoPool))" by simp
  have m: "hd (started (exec demoExt laneBeforeStart demoPool))
             \<in> set (started (exec demoExt laneBeforeStart demoPool))
     \<and> wlog (fst (hd (started (exec demoExt laneBeforeStart demoPool)))) \<noteq> PoolLog"
    by (simp add: run_defs laneLog_def)
  from lane_worker_gets_nil_context [OF demoPool_built, of demoExt laneBeforeStart] u m
  have "ctx (exec demoExt laneBeforeStart demoPool) = None
     \<and> snd (hd (started (exec demoExt laneBeforeStart demoPool))) = None"
    by blast
  with h show ?thesis using demoPool_built by blast
qed

lemma StartReturned_stable_step:
  assumes "startCall s = StartReturned r" "step ext ev s = Some s'"
  shows "startCall s' = StartReturned r"
proof (cases ev)
  case (Run t)
  with assms show ?thesis
    by (auto simp: step_def split: if_splits dest: RunAsync_frame)
next
  case (Take c)
  with assms show ?thesis
    by (auto simp: step_def split: if_splits outcome.splits)
qed (use assms in \<open>auto simp: step_def Start_def split: if_splits\<close>)

lemma StartReturned_stable:
  "startCall s = StartReturned r \<Longrightarrow> startCall (exec ext evs s) = StartReturned r"
proof (induction evs arbitrary: s)
  case (Cons ev evs)
  then show ?case
    by (cases "step ext ev s") (auto dest: StartReturned_stable_step)
qed simp

text \<open>
  Claim C10. When \<^verbatim>\<open>Start\<close> has returned an error, then in that state and in every
  later one: the error is the wrapped failure to build some worker \<open>i\<close> between 1 and
  \<open>poolSize\<close>, the first that failed; the default queue is not closed; \<^verbatim>\<open>pool.ctx\<close> is
  still nil; and the workers bound to the default queue are the \<open>i - 1\<close> workers started
  before the failure, which nothing stops.
\<close>

theorem failed_Start_leaves_queue_open:
  assumes "AddK8sWorkerPool inCluster env addErr = Inr s0"
  shows "startCall (exec ext evs s0) = StartReturned (Some e) \<longrightarrow>
     startCall (exec ext (evs @ later) s0) = StartReturned (Some e)
     \<and> \<not> closed (chans (exec ext (evs @ later) s0) ! jobsQueue (exec ext (evs @ later) s0))
     \<and> ctx (exec ext (evs @ later) s0) = None
     \<and> (\<exists>c i err. 1 \<le> i \<and> i \<le> poolSize (exec ext (evs @ later) s0)
            \<and> (\<forall>j \<in> {1..<i}. workerError ext j = None)
            \<and> workerError ext i = Some err
            \<and> e = Errorf ''failed to start k8s workers pool''
                    err
            \<and> defaultWorkers (exec ext (evs @ later) s0)
                = spawned c (i - 1) (exec ext (evs @ later) s0))"
proof
  assume r: "startCall (exec ext evs s0) = StartReturned (Some e)"
  let ?s = "exec ext (evs @ later) s0"
  from r have st: "startCall ?s = StartReturned (Some e)"
    by (simp add: exec_append StartReturned_stable)
  from assms have "startInv ext ?s"
    using inv_run [of inCluster env addErr s0 ext "evs @ later"] by (simp add: inv_def)
  with st show "startCall ?s = StartReturned (Some e)
     \<and> \<not> closed (chans ?s ! jobsQueue ?s) \<and> ctx ?s = None
     \<and> (\<exists>c i err. 1 \<le> i \<and> i \<le> poolSize ?s
            \<and> (\<forall>j \<in> {1..<i}. workerError ext j = None)
            \<and> workerError ext i = Some err
            \<and> e = Errorf ''failed to start k8s workers pool''
                    err
            \<and> defaultWorkers ?s = spawned c (i - 1) ?s)"
    by (simp add: startInv_def)
qed

theorem failed_Start_leaves_queue_open_witness:
  "AddK8sWorkerPool (Inr 7) (Some ''2'') None = Inr demoPool
   \<and> startCall (exec brokenExt startFails demoPool)
       = StartReturned (Some (Errorf ''failed to start k8s workers pool''
            (Failure ''no route'')))
   \<and> defaultWorkers (exec brokenExt startFails demoPool) = spawned 3 1 demoPool
   \<and> \<not> closed (chans (exec brokenExt (startFails @ [Cancel 3, RunStart]) demoPool)
                ! jobsQueue (exec brokenExt (startFails @ [Cancel 3, RunStart]) demoPool))
   \<and> ctx (exec brokenExt (startFails @ [Cancel 3, RunStart]) demoPool) = None"
proof -
  have h: "startCall (exec brokenExt startFails demoPool)
       = StartReturned (Some (Errorf ''failed to start k8s workers pool''
            (Failure ''no route'')))"
    by (simp add: run_defs)
  have d: "defaultWorkers (exec brokenExt startFails demoPool) = spawned 3 1 demoPool"
    by (simp add: run_defs defaultWorkers_def spawned_def)
  from failed_Start_leaves_queue_open
         [OF demoPool_built, of brokenExt startFails _ "[Cancel 3, RunStart]"] h d
  show ?thesis using demoPool_built by simp
qed

subsection \<open>A failed lane creation\<close>

lemma held_forever_step:
  assumes "mutex s" "impersonationWorkersLock s = Some h" "at (calls s ! h) = Returned"
    and "step ext ev s = Some s'"
  shows "impersonationWorkersLock s' = Some h \<and> at (calls s' ! h) = Returned
       \<and> impersonations s' = impersonations s
       \<and> impersonationWorkersQueues s' = impersonationWorkersQueues s"
proof (cases ev)
  case (Run t)
  with assms have t: "t < length (calls s)" and r: "RunAsync ext t s = Some s'"
    by (auto simp: step_def split: if_splits)
  from assms have h: "h < length (calls s)" by (simp add: mutex_def)
  from r assms(3) have ne: "t \<noteq> h" by (auto simp: RunAsync_def)
  with assms t have "\<not> holdsLock (at (calls s ! t))" by (auto simp: mutex_def)
  with r t ne h assms(2,3) show ?thesis
    by (cases "at (calls s ! t)")
       (auto simp: RunAsync_def sendAndReturn_def split: sum.splits outcome.splits option.splits if_splits)
next
  case (Submit j)
  from assms have h: "h < length (calls s)" by (simp add: mutex_def)
  with Submit assms show ?thesis
    by (auto simp: step_def nth_append split: if_splits)
next
  case RunStart
  with assms show ?thesis
    by (cases "startCall s")
       (auto simp: step_def Start_def split: if_splits sum.splits outcome.splits)
next
  case (Take c)
  with assms show ?thesis
    by (auto simp: step_def split: if_splits outcome.splits)
qed (use assms in \<open>auto simp: step_def split: if_splits\<close>)

lemma held_forever:
  "mutex s \<Longrightarrow> impersonationWorkersLock s = Some h \<Longrightarrow> at (calls s ! h) = Returned \<Longrightarrow>
   impersonationWorkersLock (exec ext evs s) = Some h \<and> at (calls (exec ext evs s) ! h) = Returned
   \<and> impersonations (exec ext evs s) = impersonations s
   \<and> impersonationWorkersQueues (exec ext evs s) = impersonationWorkersQueues s"
proof (induction evs arbitrary: s)
  case (Cons ev evs)
  show ?case
  proof (cases "step ext ev s")
    case None
    with Cons show ?thesis by simp
  next
    case (Some s')
    from held_forever_step [OF Cons.prems Some] mutex_step [OF Cons.prems(1) Some]
      Cons.IH [of s'] Some
    show ?thesis by simp
  qed
qed simp

lemma demo_mutex: "mutex (exec demoExt evs demoPool)"
  using inv_run [OF demoPool_built, of demoExt evs] by (simp add: inv_def)

text \<open>
  Claim C1 says that \<^verbatim>\<open>RunAsync\<close> releases the mutex when \<^verbatim>\<open>createUserWorker\<close> fails.
  The code does not: line 121 returns without \<^verbatim>\<open>Unlock\<close>, which only line 127 calls.
  On the concrete pool, a job for \<open>''carol''\<close>, whom \<^verbatim>\<open>Impersonate\<close> rejects, is logged
  and dropped (nothing is put on a queue) and the call returns, but the mutex stays held
  by the call that returned, in that state and in every continuation of the run.
\<close>

theorem failed_impersonation_returns_with_lock_held:
  "at (calls (exec demoExt carolDropped demoPool) ! 0) = Returned
   \<and> log (exec demoExt carolDropped demoPool) =
        [Error (Errorf ''failed to impersonate'' (Failure ''forbidden''))
           ''failed to create user worker'' [(''user'', ''carol'')]]
   \<and> map buf (chans (exec demoExt carolDropped demoPool)) = [[]]
   \<and> impersonationWorkersLock (exec demoExt carolDropped demoPool) = Some 0
   \<and> (\<forall>later. impersonationWorkersLock (exec demoExt (carolDropped @ later) demoPool) = Some 0)"
proof -
  have a: "at (calls (exec demoExt carolDropped demoPool) ! 0) = Returned
   \<and> log (exec demoExt carolDropped demoPool) =
        [Error (Errorf ''failed to impersonate'' (Failure ''forbidden''))
           ''failed to create user worker'' [(''user'', ''carol'')]]
   \<and> map buf (chans (exec demoExt carolDropped demoPool)) = [[]]
   \<and> impersonationWorkersLock (exec demoExt carolDropped demoPool) = Some 0"
    by (simp add: run_defs)
  with held_forever [OF demo_mutex, of carolDropped 0 demoExt] show ?thesis
    by (simp add: exec_append)
qed

text \<open>
  Claim C3 says that after a rejected identity no lane is inserted, so that a later
  submission for the same identity asks \<^verbatim>\<open>Impersonate\<close> again. The first half holds on
  the code: the map has no entry for \<open>''carol''\<close>. The second does not, by the defect
  of claim C1: the mutex is still held, a second job for \<open>''carol''\<close> stops at \<^verbatim>\<open>Lock\<close>
  (line 116) and cannot go on, and in no continuation of the run is \<^verbatim>\<open>Impersonate\<close>
  called a second time or a lane created for \<open>''carol''\<close>.
\<close>

theorem no_retry_after_failed_impersonation:
  "impersonationWorkersQueues (exec demoExt carolDropped demoPool) ''carol'' = None
   \<and> impersonations (exec demoExt carolDropped demoPool) = [''carol'']
   \<and> at (calls (exec demoExt (carolDropped @ [Submit (job ''carol''), Run 1, Run 1, Run 1])
                  demoPool) ! 1) = AtLock ''carol''
   \<and> step demoExt (Run 1)
        (exec demoExt (carolDropped @ [Submit (job ''carol''), Run 1, Run 1, Run 1]) demoPool)
       = None
   \<and> (\<forall>later. impersonations (exec demoExt (carolDropped @ later) demoPool) = [''carol'']
        \<and> impersonationWorkersQueues (exec demoExt (carolDropped @ later) demoPool) ''carol''
            = None)"
proof -
  have a: "impersonationWorkersQueues (exec demoExt carolDropped demoPool) ''carol'' = None
   \<and> impersonations (exec demoExt carolDropped demoPool) = [''carol'']
   \<and> at (calls (exec demoExt carolDropped demoPool) ! 0) = Returned
   \<and> impersonationWorkersLock (exec demoExt carolDropped demoPool) = Some 0"
    by (simp add: run_defs)
  have b: "at (calls (exec demoExt (carolDropped @ [Submit (job ''carol''), Run 1, Run 1, Run 1])
                  demoPool) ! 1) = AtLock ''carol''
   \<and> step demoExt (Run 1)
        (exec demoExt (carolDropped @ [Submit (job ''carol''), Run 1, Run 1, Run 1]) demoPool)
       = None"
    by (simp add: run_defs)
  from a b held_forever [OF demo_mutex, of carolDropped 0 demoExt] show ?thesis
    by (simp add: exec_append)
qed



lemma existing_lane_is_reused:
  assumes "crashed s = None" "t < length (calls s)" "at (calls s ! t) = AtLookup u"
    and "impersonationWorkersQueues s u = Some q" "impersonationWorkersLock s = Some t"
    and "\<not> closed (chans s ! q)" "int (length (buf (chans s ! q))) < cap (chans s ! q)"
  shows "exec ext [Run t, Run t, Run t, Run t] s =
           s\<lparr>impersonationWorkersLock := None,
             chans := (chans s)[q := (chans s ! q)
                        \<lparr>buf := buf (chans s ! q) @ [cjob (calls s ! t)]\<rparr>],
             calls := (calls s)[t := (calls s ! t)\<lparr>at := Returned\<rparr>]\<rparr>"
  using assms
  by (simp add: step_def RunAsync_def sendAndReturn_def send_def goto_def)

lemma first_submission_creates_lane:
  assumes "crashed s = None" "t < length (calls s)" "at (calls s ! t) = AtLookup u"
    and "impersonationWorkersQueues s u = None"
    and "Impersonate ext u (length (impersonations s)) = Inr k" "0 \<le> poolSize s"
  shows "exec ext [Run t, Run t, Run t] s =
           s\<lparr>impersonationWorkersQueues := (impersonationWorkersQueues s)(u \<mapsto> length (chans s)),
             chans := chans s @ [\<lparr>buf = [], cap = poolSize s, closed = False\<rparr>],
             started := started s @
               [(newK8sWorkerWithClient (laneLog u) 1 (WithClient k) (length (chans s)), ctx s)],
             calls := (calls s)[t := (calls s ! t)\<lparr>at := AtReadQueue u\<rparr>],
             impersonations := impersonations s @ [u]\<rparr>"
  using assms
  by (simp add: step_def RunAsync_def createUserWorker_def makeChan_def goto_def Let_def)


text \<open>
  Claim C6. In any state of a live process, a call of \<^verbatim>\<open>RunAsync\<close> whose job's identity
  cannot be extracted (\<^verbatim>\<open>GetUserIdentity\<close> fails) writes the error to the log and returns,
  in one step that changes nothing else: no queue receives the job, the lane map, the
  mutex and the workers are as before, and \<^verbatim>\<open>RunAsync\<close> has no result through which the
  error could reach its caller.
\<close>

theorem extraction_failure_drops_job:
  assumes "crashed s = None" "t < length (calls s)" "at (calls s ! t) = AtGetUserIdentity"
    and "GetUserIdentity ext (obj (cjob (calls s ! t))) = Inl err"
  shows "step ext (Run t) s =
           Some (s\<lparr>log := log s @ [Error err ''failed to get user identity from obj'' []],
                   calls := (calls s)[t := (calls s ! t)\<lparr>at := Returned\<rparr>]\<rparr>)"
  using assms by (simp add: step_def RunAsync_def goto_def)

theorem extraction_failure_drops_job_witness:
  "crashed (exec demoExt [Submit (job ''malformed'')] demoPool) = None
   \<and> at (calls (exec demoExt [Submit (job ''malformed'')] demoPool) ! 0) = AtGetUserIdentity
   \<and> GetUserIdentity demoExt (obj (job ''malformed'')) = Inl (Failure ''malformed payload'')
   \<and> step demoExt (Run 0) (exec demoExt [Submit (job ''malformed'')] demoPool) =
        Some (demoPool\<lparr>log := [Error (Failure ''malformed payload'')
                                  ''failed to get user identity from obj'' []],
                       calls := [\<lparr>cjob = job ''malformed'', at = Returned\<rparr>]\<rparr>)"
proof -
  let ?s = "exec demoExt [Submit (job ''malformed'')] demoPool"
  have s: "?s = demoPool\<lparr>calls := [\<lparr>cjob = job ''malformed'', at = AtGetUserIdentity\<rparr>]\<rparr>"
    by (simp add: step_def demoPool_def)
  have h1: "crashed ?s = None" and h2: "0 < length (calls ?s)"
    and h3: "at (calls ?s ! 0) = AtGetUserIdentity"
    and h4: "GetUserIdentity demoExt (obj (cjob (calls ?s ! 0))) = Inl (Failure ''malformed payload'')"
    unfolding s by (simp_all add: demoPool_def demoExt_def job_def NewK8sJob_def)
  have g: "GetUserIdentity demoExt (obj (job ''malformed'')) = Inl (Failure ''malformed payload'')"
    by (simp add: demoExt_def job_def NewK8sJob_def)
  from extraction_failure_drops_job [OF h1 h2 h3 h4]
  have "step demoExt (Run 0) ?s =
        Some (demoPool\<lparr>log := [Error (Failure ''malformed payload'')
                                  ''failed to get user identity from obj'' []],
                       calls := [\<lparr>cjob = job ''malformed'', at = Returned\<rparr>]\<rparr>)"
    unfolding s by (simp add: demoPool_def)
  with h1 h3 g show ?thesis by blast
qed

subsection \<open>Jobs without identity, and \<^verbatim>\<open>Start\<close>\<close>

text \<open>
  Claim C7 says that every job without identity is put on the default queue and that
  \<^verbatim>\<open>RunAsync\<close> returns. Not so once \<^verbatim>\<open>Start\<close> has closed that queue (line 98): on the
  concrete pool, started and shut down, the send of line 112 panics, the job is on no
  queue and the call has not returned.
\<close>

theorem no_identity_after_shutdown_counterexample:
  "crashed (exec demoExt afterShutdown demoPool) = Some ''send on closed channel''
   \<and> map buf (chans (exec demoExt afterShutdown demoPool)) = [[]]
   \<and> map at (calls (exec demoExt afterShutdown demoPool)) = [AtDefaultSend]
   \<and> GetUserIdentity demoExt (obj (job [])) = Inr (NoUserIdentity demoExt)
   \<and> startCall (exec demoExt afterShutdown demoPool) = StartReturned None"
  by (simp add: run_defs)

text \<open>
  Claim C7, amended. In any state of a live process, a call of \<^verbatim>\<open>RunAsync\<close> whose job
  carries \<^verbatim>\<open>rbac.NoUserIdentity\<close> goes from line 105 to the send on the default queue
  (line 112) and changes nothing on the way; as long as the default queue has not been
  closed, it appends its job to that queue and returns as soon as the queue has room,
  and waits while it is full. Whatever the send does, the lane map, the mutex, the
  workers and every other queue stay as they were: the path never reaches \<^verbatim>\<open>Lock\<close>.
\<close>

theorem no_identity_goes_to_default_queue:
  assumes "crashed s = None" "t < length (calls s)"
  shows "(at (calls s ! t) = AtGetUserIdentity
          \<and> GetUserIdentity ext (obj (cjob (calls s ! t))) = Inr (NoUserIdentity ext) \<longrightarrow>
            step ext (Run t) s =
              Some (s\<lparr>calls := (calls s)[t := (calls s ! t)\<lparr>at := AtDefaultSend\<rparr>]\<rparr>))
       \<and> (at (calls s ! t) = AtDefaultSend \<and> \<not> closed (chans s ! jobsQueue s)
          \<and> int (length (buf (chans s ! jobsQueue s))) < cap (chans s ! jobsQueue s) \<longrightarrow>
            step ext (Run t) s =
              Some (s\<lparr>chans := (chans s)[jobsQueue s := (chans s ! jobsQueue s)
                                  \<lparr>buf := buf (chans s ! jobsQueue s) @ [cjob (calls s ! t)]\<rparr>],
                      calls := (calls s)[t := (calls s ! t)\<lparr>at := Returned\<rparr>]\<rparr>))
       \<and> (at (calls s ! t) = AtDefaultSend \<and> \<not> closed (chans s ! jobsQueue s)
          \<and> cap (chans s ! jobsQueue s) \<le> int (length (buf (chans s ! jobsQueue s))) \<longrightarrow>
            step ext (Run t) s = None)
       \<and> (at (calls s ! t) = AtDefaultSend \<and> step ext (Run t) s = Some s' \<longrightarrow>
            impersonationWorkersQueues s' = impersonationWorkersQueues s
            \<and> impersonationWorkersLock s' = impersonationWorkersLock s
            \<and> started s' = started s \<and> length (chans s') = length (chans s)
            \<and> (\<forall>c. c \<noteq> jobsQueue s \<longrightarrow> chans s' ! c = chans s ! c))"
  using assms
  by (auto simp: step_def RunAsync_def sendAndReturn_def send_def goto_def panic_def
           split: outcome.splits if_splits)

theorem no_identity_goes_to_default_queue_witness:
  "step demoExt (Run 0) (exec demoExt [Submit (job [])] demoPool)
     = Some (demoPool\<lparr>calls := [\<lparr>cjob = job [], at = AtDefaultSend\<rparr>]\<rparr>)
   \<and> step demoExt (Run 0) (demoPool\<lparr>calls := [\<lparr>cjob = job [], at = AtDefaultSend\<rparr>]\<rparr>)
     = Some (demoPool\<lparr>chans := [\<lparr>buf = [job []], cap = 2, closed = False\<rparr>],
                      calls := [\<lparr>cjob = job [], at = Returned\<rparr>]\<rparr>)
   \<and> step demoExt (Run 0)
        (demoPool\<lparr>chans := [\<lparr>buf = [job ''x'', job ''y''], cap = 2, closed = False\<rparr>],
                  calls := [\<lparr>cjob = job [], at = AtDefaultSend\<rparr>]\<rparr>) = None
   \<and> impersonationWorkersLock
        (demoPool\<lparr>chans := [\<lparr>buf = [job []], cap = 2, closed = False\<rparr>],
                  calls := [\<lparr>cjob = job [], at = Returned\<rparr>]\<rparr>) = None"
proof -
  let ?s0 = "exec demoExt [Submit (job [])] demoPool"
  let ?s1 = "demoPool\<lparr>calls := [\<lparr>cjob = job [], at = AtDefaultSend\<rparr>]\<rparr>"
  let ?s2 = "demoPool\<lparr>chans := [\<lparr>buf = [job []], cap = 2, closed = False\<rparr>],
                      calls := [\<lparr>cjob = job [], at = Returned\<rparr>]\<rparr>"
  let ?sf = "demoPool\<lparr>chans := [\<lparr>buf = [job ''x'', job ''y''], cap = 2, closed = False\<rparr>],
                  calls := [\<lparr>cjob = job [], at = AtDefaultSend\<rparr>]\<rparr>"
  have s0: "?s0 = demoPool\<lparr>calls := [\<lparr>cjob = job [], at = AtGetUserIdentity\<rparr>]\<rparr>"
    by (simp add: step_def demoPool_def)
  have a: "crashed ?s0 = None" "0 < length (calls ?s0)"
    "at (calls ?s0 ! 0) = AtGetUserIdentity
     \<and> GetUserIdentity demoExt (obj (cjob (calls ?s0 ! 0))) = Inr (NoUserIdentity demoExt)"
    unfolding s0 by (simp_all add: demoPool_def demoExt_def job_def NewK8sJob_def)
  from no_identity_goes_to_default_queue [OF a(1,2), of demoExt] a(3)
  have r0: "step demoExt (Run 0) ?s0 = Some ?s1"
    unfolding s0 by (simp add: demoPool_def)
  have b: "crashed ?s1 = None" "0 < length (calls ?s1)"
    "at (calls ?s1 ! 0) = AtDefaultSend \<and> \<not> closed (chans ?s1 ! jobsQueue ?s1)
     \<and> int (length (buf (chans ?s1 ! jobsQueue ?s1))) < cap (chans ?s1 ! jobsQueue ?s1)"
    by (simp_all add: demoPool_def)
  from no_identity_goes_to_default_queue [OF b(1,2), of demoExt] b(3)
  have r1: "step demoExt (Run 0) ?s1 = Some ?s2"
    by (simp add: demoPool_def)
  have c: "crashed ?sf = None" "0 < length (calls ?sf)"
    "at (calls ?sf ! 0) = AtDefaultSend \<and> \<not> closed (chans ?sf ! jobsQueue ?sf)
     \<and> cap (chans ?sf ! jobsQueue ?sf) \<le> int (length (buf (chans ?sf ! jobsQueue ?sf)))"
    by (simp_all add: demoPool_def)
  from no_identity_goes_to_default_queue [OF c(1,2), of demoExt] c(3)
  have r2: "step demoExt (Run 0) ?sf = None" by blast
  from no_identity_goes_to_default_queue [OF b(1,2), of demoExt ?s2] b(3) r1
  have "impersonationWorkersLock ?s2 = impersonationWorkersLock ?s1" by blast
  then have r3: "impersonationWorkersLock ?s2 = None" by (simp add: demoPool_def)
  from r0 r1 r2 r3 show ?thesis by blast
qed

lemma upto_nat: "[1..int (nat n)] = [1..n]"
  by (cases "0 \<le> n") simp_all

lemma Start_loop_run:
  assumes "crashed s = None" "startCall s = AtLoop c i"
    and "\<forall>j \<in> {i..<i + int k}. j \<le> poolSize s \<and> workerError ext j = None"
  shows "exec ext (replicate k RunStart) s =
           s\<lparr>started := started s @
                map (\<lambda>j. (newK8sWorkerWithClient PoolLog j (FromKubeConfig (kubeConfig s))
                            (jobsQueue s), Some c)) [i..i + int k - 1],
             startCall := AtLoop c (i + int k)\<rparr>"
  using assms
proof (induction k arbitrary: s i)
  case 0
  then show ?case by simp
next
  case (Suc k)
  let ?s1 = "s\<lparr>started := started s @
                [(newK8sWorkerWithClient PoolLog i (FromKubeConfig (kubeConfig s)) (jobsQueue s),
                  Some c)],
              startCall := AtLoop c (i + 1)\<rparr>"
  from Suc.prems have i: "i \<le> poolSize s \<and> workerError ext i = None" by simp
  with Suc.prems have st: "step ext RunStart s = Some ?s1"
    by (simp add: step_def Start_def newK8sWorker_def)
  have "\<forall>j \<in> {i + 1..<i + 1 + int k}. j \<le> poolSize ?s1 \<and> workerError ext j = None"
    using Suc.prems(3) by simp
  with Suc.prems have "exec ext (replicate k RunStart) ?s1 =
      ?s1\<lparr>started := started ?s1 @
                map (\<lambda>j. (newK8sWorkerWithClient PoolLog j (FromKubeConfig (kubeConfig ?s1))
                            (jobsQueue ?s1), Some c)) [i + 1..i + 1 + int k - 1],
             startCall := AtLoop c (i + 1 + int k)\<rparr>"
    by (intro Suc.IH) simp_all
  moreover have "[i..i + int (Suc k) - 1] = i # [i + 1..i + 1 + int k - 1]"
    by (simp add: upto_rec1 [of i])
  ultimately show ?case using st by (simp add: add.commute add.left_commute)
qed


lemma exec_Cons_Some: "step ext ev s = Some s' \<Longrightarrow> exec ext (ev # evs) s = exec ext evs s'"
  by simp

lemma replicate_snoc2: "replicate (k + 2) x = replicate k x @ [x, x]"
  by (induction k) simp_all

lemma replicate_snoc: "replicate (Suc k) x = replicate k x @ [x]"
  by (induction k) simp_all

lemma Start_succeeds:
  assumes "crashed s = None" "startCall s = NotCalled"
    and "\<forall>i \<in> {1..poolSize s}. workerError ext i = None"
  shows "exec ext (CallStart c # replicate (nat (poolSize s) + 2) RunStart) s =
           s\<lparr>ctx := Some c, started := started s @ spawned c (poolSize s) s,
             startCall := AtWait c\<rparr>"
proof -
  define k where "k = nat (poolSize s)"
  have k1: "\<not> 1 + int k \<le> poolSize s" and k2: "[1..1 + int k - 1] = [1..poolSize s]"
    and k3: "\<forall>j \<in> {1..<1 + int k}. j \<le> poolSize s \<and> workerError ext j = None"
    using assms(3) unfolding k_def by (auto simp: upto_nat)
  let ?s1 = "s\<lparr>startCall := AtLoop c 1\<rparr>"
  let ?s2 = "s\<lparr>started := started s @ spawned c (poolSize s) s,
               startCall := AtLoop c (1 + int k)\<rparr>"
  let ?s3 = "s\<lparr>started := started s @ spawned c (poolSize s) s, startCall := AtSetCtx c\<rparr>"
  let ?s4 = "s\<lparr>ctx := Some c, started := started s @ spawned c (poolSize s) s,
               startCall := AtWait c\<rparr>"
  from assms have call: "step ext (CallStart c) s = Some ?s1" by (simp add: step_def)
  have loop: "exec ext (replicate k RunStart) ?s1 = ?s2"
    using Start_loop_run [of ?s1 c 1 k ext] assms(1) k3 k2 by (simp add: spawned_def)
  from assms(1) k1 have exit: "step ext RunStart ?s2 = Some ?s3"
    by (simp add: step_def Start_def)
  from assms(1) have set: "step ext RunStart ?s3 = Some ?s4"
    by (simp add: step_def Start_def)
  have "exec ext (CallStart c # replicate k RunStart @ [RunStart, RunStart]) s =
          exec ext (replicate k RunStart @ [RunStart, RunStart]) ?s1"
    using call by (rule exec_Cons_Some)
  also have "\<dots> = exec ext [RunStart, RunStart] ?s2" by (simp only: exec_append loop)
  also have "\<dots> = exec ext [RunStart] ?s3" using exit by (rule exec_Cons_Some)
  also have "\<dots> = exec ext [] ?s4" using set by (rule exec_Cons_Some)
  finally have "exec ext (CallStart c # replicate k RunStart @ [RunStart, RunStart]) s = ?s4"
    by (simp only: exec.simps)
  then show ?thesis unfolding k_def replicate_snoc2 .
qed

lemma Start_fails:
  assumes "crashed s = None" "startCall s = NotCalled" "1 \<le> i" "i \<le> poolSize s"
    and "\<forall>j \<in> {1..<i}. workerError ext j = None" "workerError ext i = Some err"
  shows "exec ext (CallStart c # replicate (nat i) RunStart) s =
           s\<lparr>started := started s @ spawned c (i - 1) s,
             startCall := StartReturned (Some (Errorf ''failed to start k8s workers pool''
                            err))\<rparr>"
proof -
  define k where "k = nat (i - 1)"
  from assms(3) have ik: "1 + int k = i" and ni: "nat i = Suc k" unfolding k_def by simp_all
  have k3: "\<forall>j \<in> {1..<1 + int k}. j \<le> poolSize s \<and> workerError ext j = None"
    using assms(4,5) unfolding ik by auto
  let ?e = "Errorf ''failed to start k8s workers pool''
              err"
  let ?s1 = "s\<lparr>startCall := AtLoop c 1\<rparr>"
  let ?s2 = "s\<lparr>started := started s @ spawned c (i - 1) s, startCall := AtLoop c i\<rparr>"
  let ?s3 = "s\<lparr>started := started s @ spawned c (i - 1) s,
               startCall := StartReturned (Some ?e)\<rparr>"
  from assms have call: "step ext (CallStart c) s = Some ?s1" by (simp add: step_def)
  have loop: "exec ext (replicate k RunStart) ?s1 = ?s2"
    using Start_loop_run [of ?s1 c 1 k ext] assms(1) k3 unfolding ik
    by (simp add: spawned_def)
  from assms(1,4,6) have fail: "step ext RunStart ?s2 = Some ?s3"
    by (simp add: step_def Start_def newK8sWorker_def)
  have "exec ext (CallStart c # replicate k RunStart @ [RunStart]) s =
          exec ext (replicate k RunStart @ [RunStart]) ?s1"
    using call by (rule exec_Cons_Some)
  also have "\<dots> = exec ext [RunStart] ?s2" by (simp only: exec_append loop)
  also have "\<dots> = exec ext [] ?s3" using fail by (rule exec_Cons_Some)
  finally have "exec ext (CallStart c # replicate k RunStart @ [RunStart]) s = ?s3"
    by (simp only: exec.simps)
  then show ?thesis unfolding ni replicate_snoc .
qed

lemma Start_shutdown:
  assumes "crashed s = None" "startCall s = AtWait c" "\<not> closed (chans s ! jobsQueue s)"
  shows "exec ext [Cancel c, RunStart, RunStart] s =
           s\<lparr>chans := (chans s)[jobsQueue s := (chans s ! jobsQueue s)\<lparr>closed := True\<rparr>],
             startCall := StartReturned None, cancelled := c # cancelled s\<rparr>"
  using assms by (simp add: step_def Start_def close_def)


text \<open>
  Claim C8. In a live process where \<^verbatim>\<open>Start\<close> has not been called: if every
  worker from 1 to \<open>poolSize\<close> can be built, \<^verbatim>\<open>Start(c)\<close> starts exactly the
  \<open>poolSize\<close> workers \<open>spawned c poolSize\<close>, each on the pool's kube config and on the
  default queue, then assigns \<^verbatim>\<open>pool.ctx\<close> and waits; while \<open>c\<close> is not cancelled it
  cannot go on; once \<open>c\<close> is cancelled it closes the default queue and returns nil. If
  worker \<open>i\<close> is the first that cannot be built, \<^verbatim>\<open>Start\<close> returns that error,
  wrapped, after starting the workers before \<open>i\<close>.
\<close>

theorem Start_contract:
  assumes "crashed s = None"
  shows "(startCall s = NotCalled \<and> (\<forall>j \<in> {1..poolSize s}. workerError ext j = None) \<longrightarrow>
            exec ext (CallStart c # replicate (nat (poolSize s) + 2) RunStart) s =
              s\<lparr>ctx := Some c, started := started s @ spawned c (poolSize s) s,
                startCall := AtWait c\<rparr>)
       \<and> length (spawned c (poolSize s) s) = nat (poolSize s)
       \<and> (\<forall>wc \<in> set (spawned c (poolSize s) s).
             wclient (fst wc) = FromKubeConfig (kubeConfig s)
             \<and> wqueue (fst wc) = jobsQueue s \<and> snd wc = Some c)
       \<and> (startCall s = AtWait c \<and> c \<notin> set (cancelled s) \<longrightarrow> step ext RunStart s = None)
       \<and> (startCall s = AtWait c \<and> \<not> closed (chans s ! jobsQueue s) \<longrightarrow>
            exec ext [Cancel c, RunStart, RunStart] s =
              s\<lparr>chans := (chans s)[jobsQueue s := (chans s ! jobsQueue s)\<lparr>closed := True\<rparr>],
                startCall := StartReturned None, cancelled := c # cancelled s\<rparr>)
       \<and> (startCall s = NotCalled \<and> 1 \<le> i \<and> i \<le> poolSize s
          \<and> (\<forall>j \<in> {1..<i}. workerError ext j = None) \<and> workerError ext i = Some err \<longrightarrow>
            exec ext (CallStart c # replicate (nat i) RunStart) s =
              s\<lparr>started := started s @ spawned c (i - 1) s,
                startCall := StartReturned (Some (Errorf ''failed to start k8s workers pool''
                               err))\<rparr>)"
proof -
  have a: "startCall s = NotCalled \<and> (\<forall>j \<in> {1..poolSize s}. workerError ext j = None) \<longrightarrow>
            exec ext (CallStart c # replicate (nat (poolSize s) + 2) RunStart) s =
              s\<lparr>ctx := Some c, started := started s @ spawned c (poolSize s) s,
                startCall := AtWait c\<rparr>"
    using Start_succeeds [OF assms] by blast
  have b: "length (spawned c (poolSize s) s) = nat (poolSize s)"
    by (simp add: spawned_def)
  have b': "\<forall>wc \<in> set (spawned c (poolSize s) s).
             wclient (fst wc) = FromKubeConfig (kubeConfig s)
             \<and> wqueue (fst wc) = jobsQueue s \<and> snd wc = Some c"
    by (auto simp: spawned_def newK8sWorkerWithClient_def)
  have d: "startCall s = AtWait c \<and> c \<notin> set (cancelled s) \<longrightarrow> step ext RunStart s = None"
    using assms by (simp add: step_def Start_def)
  have e: "startCall s = AtWait c \<and> \<not> closed (chans s ! jobsQueue s) \<longrightarrow>
            exec ext [Cancel c, RunStart, RunStart] s =
              s\<lparr>chans := (chans s)[jobsQueue s := (chans s ! jobsQueue s)\<lparr>closed := True\<rparr>],
                startCall := StartReturned None, cancelled := c # cancelled s\<rparr>"
    using Start_shutdown [OF assms] by blast
  have f: "startCall s = NotCalled \<and> 1 \<le> i \<and> i \<le> poolSize s
          \<and> (\<forall>j \<in> {1..<i}. workerError ext j = None) \<and> workerError ext i = Some err \<longrightarrow>
            exec ext (CallStart c # replicate (nat i) RunStart) s =
              s\<lparr>started := started s @ spawned c (i - 1) s,
                startCall := StartReturned (Some (Errorf ''failed to start k8s workers pool''
                               err))\<rparr>"
    using Start_fails [OF assms] by blast
  from a b b' d e f show ?thesis by blast
qed

theorem Start_contract_witness:
  "exec demoExt (CallStart 3 # replicate (nat 2 + 2) RunStart) demoPool =
     demoPool\<lparr>ctx := Some 3,
        started := [(\<lparr>wlog = PoolLog, workerID = 1, wclient = FromKubeConfig 7, wqueue = 0\<rparr>, Some 3),
                    (\<lparr>wlog = PoolLog, workerID = 2, wclient = FromKubeConfig 7, wqueue = 0\<rparr>, Some 3)],
        startCall := AtWait 3\<rparr>
   \<and> step demoExt RunStart (demoPool\<lparr>startCall := AtWait 3\<rparr>) = None
   \<and> exec demoExt [Cancel 3, RunStart, RunStart] (demoPool\<lparr>startCall := AtWait 3\<rparr>) =
       demoPool\<lparr>chans := [\<lparr>buf = [], cap = 2, closed = True\<rparr>],
                startCall := StartReturned None, cancelled := [3]\<rparr>
   \<and> exec brokenExt (CallStart 3 # replicate (nat 2) RunStart) demoPool =
       demoPool\<lparr>started := [(\<lparr>wlog = PoolLog, workerID = 1, wclient = FromKubeConfig 7,
                                wqueue = 0\<rparr>, Some 3)],
          startCall := StartReturned (Some (Errorf ''failed to start k8s workers pool''
                         (Failure ''no route'')))\<rparr>"
proof -
  let ?w = "demoPool\<lparr>startCall := AtWait 3\<rparr>"
  have c0: "crashed demoPool = None" and c1: "crashed ?w = None" by (simp_all add: demoPool_def)
  have p: "poolSize demoPool = 2" "startCall demoPool = NotCalled" by (simp_all add: demoPool_def)
  have ok: "\<forall>j \<in> {1..poolSize demoPool}. workerError demoExt j = None" by (simp add: demoExt_def)
  have sp2: "spawned 3 2 demoPool =
      [(\<lparr>wlog = PoolLog, workerID = 1, wclient = FromKubeConfig 7, wqueue = 0\<rparr>, Some 3),
       (\<lparr>wlog = PoolLog, workerID = 2, wclient = FromKubeConfig 7, wqueue = 0\<rparr>, Some 3)]"
    by (simp add: spawned_def demoPool_def newK8sWorkerWithClient_def upto_rec1)
  have sp1: "spawned 3 (2 - 1) demoPool =
      [(\<lparr>wlog = PoolLog, workerID = 1, wclient = FromKubeConfig 7, wqueue = 0\<rparr>, Some 3)]"
    by (simp add: spawned_def demoPool_def newK8sWorkerWithClient_def upto_rec1)
  from Start_contract [OF c0, of demoExt 3] p ok
  have r1: "exec demoExt (CallStart 3 # replicate (nat 2 + 2) RunStart) demoPool =
     demoPool\<lparr>ctx := Some 3, started := started demoPool @ spawned 3 2 demoPool,
              startCall := AtWait 3\<rparr>"
    by simp
  have w: "startCall ?w = AtWait 3 \<and> 3 \<notin> set (cancelled ?w)"
    "startCall ?w = AtWait 3 \<and> \<not> closed (chans ?w ! jobsQueue ?w)"
    by (simp_all add: demoPool_def)
  from Start_contract [OF c1, of demoExt 3] w
  have r2: "step demoExt RunStart ?w = None"
    and r3: "exec demoExt [Cancel 3, RunStart, RunStart] ?w =
              ?w\<lparr>chans := (chans ?w)[jobsQueue ?w := (chans ?w ! jobsQueue ?w)\<lparr>closed := True\<rparr>],
                startCall := StartReturned None, cancelled := 3 # cancelled ?w\<rparr>"
    by blast+
  have bad: "(1::int) \<le> 2 \<and> 2 \<le> poolSize demoPool
     \<and> (\<forall>j \<in> {1..<2}. workerError brokenExt j = None)
     \<and> workerError brokenExt 2 = Some (Failure ''no route'')"
    by (simp add: demoPool_def brokenExt_def demoExt_def)
  from Start_contract [OF c0, of brokenExt 3 2 "Failure ''no route''"] p(2) bad
  have r4: "exec brokenExt (CallStart 3 # replicate (nat 2) RunStart) demoPool =
       demoPool\<lparr>started := started demoPool @ spawned 3 (2 - 1) demoPool,
          startCall := StartReturned (Some (Errorf ''failed to start k8s workers pool''
                         (Failure ''no route'')))\<rparr>"
    by blast
  from r1 r2 r3 r4 show ?thesis
    unfolding sp2 sp1 by (simp add: demoPool_def)
qed

end
